theory Spec2Isabelle
  imports Main "HOL-Library.Word"
begin

section \<open>The parallel task runtime of \<^verbatim>\<open>src/partr.c\<close>\<close>

text \<open>
  A shallow embedding of the multiqueue, the synchronisation-tree pools, the arrival and
  reduction trees and task creation. Every C function is a HOL function over an explicit
  state; a pointer is an address (\<open>nat\<close>), \<^verbatim>\<open>NULL\<close> is \<open>None\<close>, and a dereference of
  \<^verbatim>\<open>NULL\<close> or an index outside an array is the value \<open>Inl\<close> of a fault.
\<close>

datatype fault = NullDeref | OutOfBounds | DivByZero | ErrorException | NoProgress

subsection \<open>Host values and callables\<close>

text \<open>
  The host's values are opaque to the runtime. The model keeps what the code inspects:
  whether a value is a simple vector (\<^verbatim>\<open>jl_is_svec\<close>), and its elements.
\<close>

datatype jl_value = jl_nothing | jl_int int | jl_func nat | jl_exception nat
  | jl_svec "jl_value list"

text \<open>
  \<^verbatim>\<open>if (!jl_is_svec(_args)) { nargs = 1; args = &_args; }
  else { nargs = jl_svec_len(_args); args = jl_svec_data(_args); }\<close>
\<close>

definition arg_vector :: "jl_value \<Rightarrow> jl_value list" where
  "arg_vector a = (case a of jl_svec xs \<Rightarrow> xs | _ \<Rightarrow> [a])"

datatype jl_callptr = jl_fptr_const_return | jl_fptr nat

text \<open>
  What the runtime takes from its host and platform: method lookup and compilation
  (\<^verbatim>\<open>jl_lookup_generic\<close>, \<^verbatim>\<open>jl_compile_method_internal\<close>), the invocation
  \<^verbatim>\<open>fptr(mfunc, args, nargs)\<close> inside \<^verbatim>\<open>JL_TRY\<close> (\<open>Inl e\<close>: the exception in transit,
  \<open>Inr v\<close>: the value returned), the page size, whether \<^verbatim>\<open>mprotect\<close> succeeds at an
  address, and the contents \<^verbatim>\<open>jl_malloc_aligned\<close> leaves in fresh tree nodes.
\<close>

record host =
  jl_compile :: "jl_value list \<Rightarrow> jl_callptr"
  jl_call :: "jl_callptr \<Rightarrow> jl_value list \<Rightarrow> jl_value + jl_value"
  jl_page_size :: nat
  mprotect_ok :: "nat \<Rightarrow> bool"
  uninit_counter :: "nat \<Rightarrow> nat \<Rightarrow> 16 word"
  uninit_slot :: "nat \<Rightarrow> nat \<Rightarrow> jl_value option"

subsection \<open>Tasks\<close>

datatype task_state = runnable_sym | done_sym | failed_sym

text \<open>
  Modelled from the spec: \<^verbatim>\<open>init_task_entry(task_wrapper, task, stk)\<close> is declared but not
  defined in the source; it prepares a saved context that enters the trampoline for
  \<open>task\<close> on the stack top \<open>stk\<close>.
\<close>

datatype jl_ctx = ctx_uninit | ctx_entry nat nat

text \<open>
  The fields of \<^verbatim>\<open>jl_task_t\<close> that the modelled functions read or write
  (\<open>mfunc\<close> and \<open>fptr\<close> are one handle, as are \<open>mredfunc\<close> and \<open>rfptr\<close>).
\<close>

record jl_task =
  t_args :: jl_value
  t_fptr :: jl_callptr
  t_result :: "jl_value option"
  t_next :: "nat option"
  t_state :: task_state
  t_started :: bool
  t_current_tid :: int
  t_sticky_tid :: int
  t_parent :: "nat option"
  t_arr :: "nat option"
  t_red :: "nat option"
  t_red_result :: "jl_value option"
  t_grain_num :: int
  t_ssize :: nat
  t_stkbuf :: nat
  t_ctx :: jl_ctx
  t_prio :: "16 word"
  t_start :: int
  t_end :: int
  t_rargs :: "jl_value option"
  t_rfptr :: "jl_callptr option"

subsection \<open>Synchronisation trees and their pools\<close>

record arriver =
  arr_index :: int
  arr_next_avail :: int
  arr_tree :: "16 word list"

record reducer =
  red_index :: int
  red_next_avail :: int
  red_tree :: "jl_value option list"

text \<open>
  The process-wide state of the pools, the object store (\<open>tasks\<close>: what lies at each
  address, read as a task) and the allocator (\<open>next_free\<close>: the next fresh address).
\<close>

record rt_state =
  arriverpool :: "arriver list"
  num_arrivers :: int
  num_arriver_tree_nodes :: int
  next_arriver :: int
  reducerpool :: "reducer list"
  num_reducers :: int
  num_reducer_tree_nodes :: int
  next_reducer :: int
  tasks :: "nat \<Rightarrow> jl_task"
  next_free :: nat

text \<open>Conversion to \<^verbatim>\<open>int16_t\<close>: two's complement wrap-around.\<close>

definition int16 :: "int \<Rightarrow> int" where
  "int16 x = (x + 32768) mod 65536 - 32768"

text \<open>
  \<^verbatim>\<open>for (int i = 1; i < ARRIVERS_P; ++i) num_arrivers = num_arrivers * num_arrivers;\<close>
\<close>

function arrivers_loop :: "int \<Rightarrow> int \<Rightarrow> int \<Rightarrow> int" where
  "arrivers_loop P i na = (if i < P then arrivers_loop P (i + 1) (int16 (na * na)) else na)"
  by pat_completeness auto
termination
  by (relation "measure (\<lambda>(P, i, na). nat (P - i))") auto

definition init_arriver :: "host \<Rightarrow> nat \<Rightarrow> nat \<Rightarrow> arriver" where
  "init_arriver h nodes i =
     \<lparr>arr_index = int i, arr_next_avail = int i + 1,
      arr_tree = map (uninit_counter h i) [0..<nodes]\<rparr>"

definition init_reducer :: "host \<Rightarrow> nat \<Rightarrow> nat \<Rightarrow> reducer" where
  "init_reducer h nodes i =
     \<lparr>red_index = int i, red_next_avail = int i + 1,
      red_tree = map (uninit_slot h i) [0..<nodes]\<rparr>"

text \<open>
  \<^verbatim>\<open>synctreepool_init\<close>. \<open>GRAIN_K\<close>, \<open>ARRIVERS_P\<close> and \<open>REDUCERS_FRAC\<close> are macros
  defined outside the source file and \<open>jl_n_threads\<close> is a global of the host: all four
  are parameters. A pool of no element makes the code write \<open>next_avail\<close> at index
  \<open>-1\<close>: a fault.
\<close>

definition synctreepool_init ::
  "host \<Rightarrow> int \<Rightarrow> int \<Rightarrow> int \<Rightarrow> int \<Rightarrow> rt_state \<Rightarrow> fault + rt_state" where
  "synctreepool_init h GRAIN_K jl_n_threads ARRIVERS_P REDUCERS_FRAC st =
     (let atn = int16 (GRAIN_K * jl_n_threads - 1);
          rtn = int16 (2 * GRAIN_K * jl_n_threads - 1);
          na0 = int16 (GRAIN_K * jl_n_threads);
          na1 = arrivers_loop ARRIVERS_P 1 na0;
          na = int16 (na1 + 1);
          nr = int16 (na * REDUCERS_FRAC)
      in if na \<le> 0 then Inl OutOfBounds
         else
           let ap = map (init_arriver h (nat atn)) [0..<nat na];
               ap' = ap[nat (na - 1) := (ap ! nat (na - 1))\<lparr>arr_next_avail := - 1\<rparr>];
               rp = map (init_reducer h (nat rtn)) [0..<nat nr];
               rp' = (if nr > 0
                      then rp[nat (nr - 1) := (rp ! nat (nr - 1))\<lparr>red_next_avail := - 1\<rparr>]
                      else rp)
           in Inr (st\<lparr>arriverpool := ap', num_arrivers := na,
                      num_arriver_tree_nodes := atn, next_arriver := 0,
                      reducerpool := rp', num_reducers := nr,
                      num_reducer_tree_nodes := rtn,
                      next_reducer := (if nr > 0 then 0 else - 1)\<rparr>))"

text \<open>
  \<^verbatim>\<open>arriver_alloc\<close>, run without interference: the compare-and-swap succeeds at once.
  The result is the index of the element in the pool.
\<close>

definition arriver_alloc :: "rt_state \<Rightarrow> fault + (nat option \<times> rt_state)" where
  "arriver_alloc st =
     (let candidate = next_arriver st
      in if candidate = - 1 then Inr (None, st)
         else if candidate < 0 \<or> int (length (arriverpool st)) \<le> candidate
         then Inl OutOfBounds
         else Inr (Some (nat candidate),
                   st\<lparr>next_arriver := arr_next_avail (arriverpool st ! nat candidate)\<rparr>))"

text \<open>
  \<^verbatim>\<open>arriver_free\<close>: clear the counters, then exchange: the pool head becomes the
  element's index and the old head is stored in its \<open>next_avail\<close>.
\<close>

definition arriver_free :: "rt_state \<Rightarrow> nat \<Rightarrow> fault + rt_state" where
  "arriver_free st a =
     (if length (arriverpool st) \<le> a then Inl OutOfBounds
      else
        let arr = arriverpool st ! a;
            arr' = arr\<lparr>arr_tree := map (\<lambda>_. 0) (arr_tree arr),
                       arr_next_avail := next_arriver st\<rparr>
        in Inr (st\<lparr>arriverpool := (arriverpool st)[a := arr'],
                   next_arriver := arr_index arr\<rparr>))"

definition reducer_alloc :: "rt_state \<Rightarrow> fault + (nat option \<times> rt_state)" where
  "reducer_alloc st =
     (let candidate = next_reducer st
      in if candidate = - 1 then Inr (None, st)
         else if candidate < 0 \<or> int (length (reducerpool st)) \<le> candidate
         then Inl OutOfBounds
         else Inr (Some (nat candidate),
                   st\<lparr>next_reducer := red_next_avail (reducerpool st ! nat candidate)\<rparr>))"

definition reducer_free :: "rt_state \<Rightarrow> nat \<Rightarrow> fault + rt_state" where
  "reducer_free st r =
     (if length (reducerpool st) \<le> r then Inl OutOfBounds
      else
        let red = reducerpool st ! r;
            red' = red\<lparr>red_tree := map (\<lambda>_. None) (red_tree red),
                       red_next_avail := next_reducer st\<rparr>
        in Inr (st\<lparr>reducerpool := (reducerpool st)[r := red'],
                   next_reducer := red_index red\<rparr>))"

text \<open>The elements reachable from a pool head along \<open>next_avail\<close>, within \<open>fuel\<close> steps.\<close>

fun free_arrivers :: "arriver list \<Rightarrow> nat \<Rightarrow> int \<Rightarrow> nat list" where
  "free_arrivers pool 0 p = []"
| "free_arrivers pool (Suc fuel) p =
     (if p < 0 \<or> int (length pool) \<le> p then []
      else nat p # free_arrivers pool fuel (arr_next_avail (pool ! nat p)))"

fun free_reducers :: "reducer list \<Rightarrow> nat \<Rightarrow> int \<Rightarrow> nat list" where
  "free_reducers pool 0 p = []"
| "free_reducers pool (Suc fuel) p =
     (if p < 0 \<or> int (length pool) \<le> p then []
      else nat p # free_reducers pool fuel (red_next_avail (pool ! nat p)))"

subsection \<open>The arrival tree and the reduction tree\<close>

text \<open>
  \<^verbatim>\<open>last_arriver\<close>: the ascent from leaf \<open>idx + G - 1\<close>, where \<open>G = GRAIN_K * jl_n_threads\<close>.
  \<^verbatim>\<open>--aidx; aidx >>= 1;\<close> is \<open>(aidx - 1) div 2\<close>; \<^verbatim>\<open>jl_atomic_fetch_add\<close> returns the
  counter's old value and stores the 16-bit successor.
\<close>

function last_arriver_loop :: "16 word list \<Rightarrow> int \<Rightarrow> fault + (int \<times> 16 word list)" where
  "last_arriver_loop tree aidx =
     (if aidx > 0 then
        let aidx' = (aidx - 1) div 2
        in if int (length tree) \<le> aidx' then Inl OutOfBounds
           else
             let arrived = tree ! nat aidx';
                 tree' = tree[nat aidx' := arrived + 1]
             in if arrived = 0 then Inr (0, tree')
                else last_arriver_loop tree' aidx'
      else Inr (1, tree))"
  by pat_completeness auto
termination
  by (relation "measure (\<lambda>(tree, aidx). nat aidx)") auto

definition last_arriver :: "int \<Rightarrow> 16 word list \<Rightarrow> int \<Rightarrow> fault + (int \<times> 16 word list)" where
  "last_arriver G tree idx = last_arriver_loop tree (idx + G - 1)"

text \<open>
  \<^verbatim>\<open>reduce\<close>. The loop computes \<open>nidx\<close>, the neighbour's slot, and never reads it: the
  reduction callable is invoked as \<^verbatim>\<open>fptr(mfunc, rargs, nrargs)\<close>, on the argument vector
  of the \<^verbatim>\<open>_rargs\<close> value (\<open>the_rargs\<close>) alone. The result \<open>None\<close> is \<^verbatim>\<open>NULL\<close>.
\<close>

function reduce_loop ::
  "host \<Rightarrow> jl_callptr \<Rightarrow> jl_value list \<Rightarrow> 16 word list \<Rightarrow> jl_value option list \<Rightarrow>
   jl_value option \<Rightarrow> int \<Rightarrow> int \<Rightarrow>
   fault + (jl_value option \<times> 16 word list \<times> jl_value option list)" where
  "reduce_loop h fptr rargs arr red val aidx ridx =
     (if aidx > 0 then
        let aidx' = (aidx - 1) div 2
        in if int (length arr) \<le> aidx' then Inl OutOfBounds
           else
             let arrived = arr ! nat aidx';
                 arr' = arr[nat aidx' := arrived + 1]
             in if arrived = 0 then Inr (None, arr', red)
                else
                  let nidx = (if odd ridx then ridx + 1 else ridx - 1);
                      val' = (case jl_call h fptr rargs of Inr v \<Rightarrow> v | Inl e \<Rightarrow> e);
                      ridx' = (ridx - 1) div 2
                  in if ridx' < 0 \<or> int (length red) \<le> ridx' then Inl OutOfBounds
                     else reduce_loop h fptr rargs arr' (red[nat ridx' := Some val'])
                            (Some val') aidx' ridx'
      else Inr (val, arr, red))"
  by pat_completeness auto
termination
  by (relation "measure (\<lambda>(h, fptr, rargs, arr, red, val, aidx, ridx). nat aidx)") auto

definition reduce ::
  "host \<Rightarrow> int \<Rightarrow> 16 word list \<Rightarrow> jl_value option list \<Rightarrow> jl_callptr \<Rightarrow> jl_value \<Rightarrow>
   jl_value option \<Rightarrow> int \<Rightarrow>
   fault + (jl_value option \<times> 16 word list \<times> jl_value option list)" where
  "reduce h G arr red fptr the_rargs val idx =
     (let aidx = idx + G - 1; ridx = aidx; rargs = arg_vector the_rargs
      in if ridx < 0 \<or> int (length red) \<le> ridx then Inl OutOfBounds
         else reduce_loop h fptr rargs arr (red[nat ridx := val]) val aidx ridx)"

subsection \<open>The value of a sync\<close>

text \<open>
  What \<^verbatim>\<open>jl_task_sync\<close> returns once the target has finished:
  \<^verbatim>\<open>task->grain_num >= 0 && task->red ? task->red_result : task->result\<close>.
\<close>

definition jl_task_sync_result :: "rt_state \<Rightarrow> nat \<Rightarrow> jl_value option" where
  "jl_task_sync_result st task =
     (let tk = tasks st task
      in if t_grain_num tk \<ge> 0 \<and> t_red tk \<noteq> None then t_red_result tk else t_result tk)"

subsection \<open>Task creation\<close>

text \<open>
  Modelled from the spec: the macro \<^verbatim>\<open>LLT_ALIGN(x, sz)\<close> is defined outside the source
  file; it rounds \<open>x\<close> up to a multiple of \<open>sz\<close>.
\<close>

definition LLT_ALIGN :: "nat \<Rightarrow> nat \<Rightarrow> nat" where
  "LLT_ALIGN x sz = ((x + sz - 1) div sz) * sz"

text \<open>
  \<^verbatim>\<open>setup_task_fun\<close>: the status and the entry point it stores; \<open>-1\<close> for a callable
  that compiles to a constant return.
\<close>

definition setup_task_fun :: "host \<Rightarrow> jl_value \<Rightarrow> int \<times> jl_callptr" where
  "setup_task_fun h the_args =
     (let fptr = jl_compile h (arg_vector the_args)
      in if fptr = jl_fptr_const_return then (- 1, fptr) else (0, fptr))"

text \<open>
  \<^verbatim>\<open>jl_task_new\<close>. The task object and its stack buffer are fresh addresses of the
  allocator; the object is uninitialised (it holds what the store held there). A failed
  \<^verbatim>\<open>mprotect\<close> raises an error.
\<close>

definition jl_task_new ::
  "host \<Rightarrow> nat option \<Rightarrow> rt_state \<Rightarrow> jl_value \<Rightarrow> fault + (nat option \<times> rt_state)" where
  "jl_task_new h current_task st the_args =
     (let task = next_free st;
          st1 = st\<lparr>next_free := next_free st + 1\<rparr>;
          (rc, fptr) = setup_task_fun h the_args;
          st2 = st1\<lparr>tasks := (tasks st1)(task := (tasks st1 task)\<lparr>t_fptr := fptr\<rparr>)\<rparr>
      in if rc \<noteq> 0 then Inr (None, st2)
         else
           let ssize = LLT_ALIGN (1 * 1024 * 1024) (jl_page_size h);
               stkbufsize = ssize + jl_page_size h + (jl_page_size h - 1);
               stkbuf = next_free st2;
               st3 = st2\<lparr>next_free := next_free st2 + stkbufsize\<rparr>;
               stk = LLT_ALIGN stkbuf (jl_page_size h)
           in if \<not> mprotect_ok h stk then Inl ErrorException
              else
                let t = (tasks st3 task)
                          \<lparr>t_args := the_args, t_result := Some jl_nothing, t_next := None,
                           t_state := runnable_sym, t_started := False,
                           t_current_tid := - 1, t_sticky_tid := - 1,
                           t_parent := current_task, t_arr := None, t_red := None,
                           t_red_result := Some jl_nothing, t_grain_num := - 1,
                           t_ssize := ssize, t_stkbuf := stkbuf,
                           t_ctx := ctx_entry task (stk + jl_page_size h)\<rparr>
                in Inr (Some task, st3\<lparr>tasks := (tasks st3)(task := t)\<rparr>))"

text \<open>\<^verbatim>\<open>lldiv\<close>: quotient truncated towards zero, and the remainder.\<close>

definition lldiv :: "int \<Rightarrow> int \<Rightarrow> int \<times> int" where
  "lldiv a b = (let q = sgn a * sgn b * (\<bar>a\<bar> div \<bar>b\<bar>) in (q, a - q * b))"

text \<open>
  The body of the loop of \<^verbatim>\<open>jl_task_new_multi\<close>, in three parts. First the task object:
  \<^verbatim>\<open>jl_task_new\<close> for the first grain, and for every later one a fresh object filled by
  \<^verbatim>\<open>memcpy(t, task, sizeof (jl_task_t))\<close>. The result is \<open>(t, task, state)\<close>.
\<close>

definition grain_alloc ::
  "host \<Rightarrow> nat option \<Rightarrow> rt_state \<Rightarrow> jl_value \<Rightarrow> nat option \<Rightarrow>
   fault + (nat option \<times> nat option \<times> rt_state)" where
  "grain_alloc h current_task st the_args task =
     (case task of
        None \<Rightarrow>
          (case jl_task_new h current_task st the_args of
             Inl f \<Rightarrow> Inl f
           | Inr (t, st') \<Rightarrow> Inr (t, t, st'))
      | Some tk \<Rightarrow>
          let t = next_free st
          in Inr (Some t, task,
                  st\<lparr>next_free := next_free st + 1, tasks := (tasks st)(t := tasks st tk)\<rparr>))"

text \<open>Then the grain's fields.\<close>

definition grain_init ::
  "rt_state \<Rightarrow> nat \<Rightarrow> nat option \<Rightarrow> int \<Rightarrow> int \<Rightarrow> int \<Rightarrow> nat \<Rightarrow> jl_value option \<Rightarrow>
   jl_callptr option \<Rightarrow> nat option \<Rightarrow> rt_state" where
  "grain_init st t task i start the_end arr the_rargs rfptr red =
     (let tk = (tasks st t)\<lparr>t_start := start, t_end := the_end, t_parent := task,
                              t_grain_num := i, t_arr := Some arr\<rparr>;
          tk' = (case the_rargs of
                   None \<Rightarrow> tk
                 | Some r \<Rightarrow> tk\<lparr>t_rargs := Some r, t_rfptr := rfptr, t_red := red\<rparr>)
      in st\<lparr>tasks := (tasks st)(t := tk')\<rparr>)"

text \<open>
  Then the chain: \<^verbatim>\<open>if (t != task) { prev->next = t; prev = t; }\<close>. The variable \<open>prev\<close>
  is initialised with the value of \<open>task\<close>, which is \<^verbatim>\<open>NULL\<close>, and is assigned nowhere
  else.
\<close>

function new_multi_loop ::
  "host \<Rightarrow> nat option \<Rightarrow> jl_value \<Rightarrow> jl_value option \<Rightarrow> int \<Rightarrow> int \<Rightarrow> int \<Rightarrow> nat \<Rightarrow>
   nat option \<Rightarrow> jl_callptr option \<Rightarrow> int \<Rightarrow> nat option \<Rightarrow> nat option \<Rightarrow> int \<Rightarrow> rt_state \<Rightarrow>
   fault + (nat option \<times> rt_state)" where
  "new_multi_loop h cur the_args the_rargs n quot rem arr red rfptr i task prev start st =
     (if i < n then
        let the_end = start + quot + (if i < rem then 1 else 0)
        in case grain_alloc h cur st the_args task of
             Inl f \<Rightarrow> Inl f
           | Inr (None, task', st1) \<Rightarrow> Inr (None, st1)
           | Inr (Some t, task', st1) \<Rightarrow>
               let st2 = grain_init st1 t task' i start the_end arr the_rargs rfptr red
               in if Some t \<noteq> task' then
                    (case prev of
                       None \<Rightarrow> Inl NullDeref
                     | Some p \<Rightarrow>
                         new_multi_loop h cur the_args the_rargs n quot rem arr red rfptr
                           (i + 1) task' (Some t) the_end
                           (st2\<lparr>tasks := (tasks st2)(p := (tasks st2 p)\<lparr>t_next := Some t\<rparr>)\<rparr>))
                  else new_multi_loop h cur the_args the_rargs n quot rem arr red rfptr
                         (i + 1) task' prev the_end st2
      else Inr (task, st))"
  by pat_completeness auto
termination
  by (relation "measure (\<lambda>(h, cur, the_args, the_rargs, n, quot, rem, arr, red, rfptr, i,
        task, prev, start, st). nat (n - i))") auto

text \<open>
  \<^verbatim>\<open>jl_task_new_multi\<close>, with \<open>GRAIN_K\<close> and \<open>jl_n_threads\<close> as parameters.
\<close>

definition jl_task_new_multi ::
  "host \<Rightarrow> int \<Rightarrow> int \<Rightarrow> nat option \<Rightarrow> rt_state \<Rightarrow> jl_value \<Rightarrow> int \<Rightarrow> jl_value option \<Rightarrow>
   fault + (nat option \<times> rt_state)" where
  "jl_task_new_multi h GRAIN_K jl_n_threads cur st the_args count the_rargs =
     (let n = GRAIN_K * jl_n_threads
      in if n = 0 then Inl DivByZero
         else
           let (quot, rem) = lldiv count n
           in case arriver_alloc st of
                Inl f \<Rightarrow> Inl f
              | Inr (None, st1) \<Rightarrow> Inr (None, st1)
              | Inr (Some arr, st1) \<Rightarrow>
                  (case the_rargs of
                     None \<Rightarrow>
                       new_multi_loop h cur the_args the_rargs n quot rem arr None None
                         0 None None 0 st1
                   | Some r \<Rightarrow>
                       (case reducer_alloc st1 of
                          Inl f \<Rightarrow> Inl f
                        | Inr (None, st2) \<Rightarrow>
                            (case arriver_free st2 arr of
                               Inl f \<Rightarrow> Inl f
                             | Inr st3 \<Rightarrow> Inr (None, st3))
                        | Inr (Some red, st2) \<Rightarrow>
                            let (rc, rfptr) = setup_task_fun h r
                            in if rc \<noteq> 0 then
                                 (case reducer_free st2 red of
                                    Inl f \<Rightarrow> Inl f
                                  | Inr st3 \<Rightarrow>
                                      (case arriver_free st3 arr of
                                         Inl f \<Rightarrow> Inl f
                                       | Inr st4 \<Rightarrow> Inr (None, st4)))
                               else new_multi_loop h cur the_args the_rargs n quot rem arr
                                      (Some red) (Some rfptr) 0 None None 0 st2)))"

subsection \<open>The multiqueue\<close>

text \<open>
  A heap of the multiqueue. \<open>hp_lock\<close> says that another thread holds the heap's
  mutex, so that \<^verbatim>\<open>jl_mutex_trylock_nogc\<close> fails; \<open>hp_tasks\<close> is the slot array.
\<close>

record taskheap =
  hp_lock :: bool
  hp_tasks :: "nat option list"
  hp_ntasks :: int
  hp_prio :: "16 word"

definition heap_d :: nat where
  "heap_d = 8"

definition heap_c :: int where
  "heap_c = 4"

definition tasks_per_heap :: nat where
  "tasks_per_heap = 129"

definition INT16_MAX :: "16 word" where
  "INT16_MAX = 32767"

definition multiq_init :: "int \<Rightarrow> taskheap list" where
  "multiq_init jl_n_threads =
     replicate (nat (int16 (heap_c * jl_n_threads)))
       \<lparr>hp_lock = False, hp_tasks = replicate tasks_per_heap None, hp_ntasks = 0,
        hp_prio = INT16_MAX\<rparr>"

text \<open>
  \<^verbatim>\<open>sift_up\<close>, on the slot array of the heap. Priorities are read through the task
  pointers, from the object store \<open>st\<close>, and compared as signed 16-bit values.
\<close>

function sift_up :: "(nat \<Rightarrow> jl_task) \<Rightarrow> nat option list \<Rightarrow> nat \<Rightarrow> fault + nat option list" where
  "sift_up st ts idx =
     (if idx > 0 then
        let parent = (idx - 1) div heap_d
        in if length ts \<le> idx then Inl OutOfBounds
           else
             (case (ts ! idx, ts ! parent) of
                (Some c, Some p) \<Rightarrow>
                  if t_prio (st c) \<le>s t_prio (st p)
                  then sift_up st (ts[parent := ts ! idx, idx := ts ! parent]) parent
                  else Inr ts
              | _ \<Rightarrow> Inl NullDeref)
      else Inr ts)"
  by pat_completeness auto
termination
  by (relation "measure (\<lambda>(st, ts, idx). idx)") (auto simp: heap_d_def)

text \<open>
  \<^verbatim>\<open>sift_down\<close>: the \<^verbatim>\<open>for\<close> loop runs over the children
  \<open>heap_d * idx + 1, \<dots>, heap_d * idx + heap_d\<close> below \<open>tasks_per_heap\<close>, each step
  reading the array as the steps before it left it; \<open>n\<close> is \<open>heap->ntasks\<close>.
\<close>

function sift_down ::
  "(nat \<Rightarrow> jl_task) \<Rightarrow> int \<Rightarrow> nat option list \<Rightarrow> nat \<Rightarrow> fault + nat option list" where
  "sift_down st n ts idx =
     (if int idx < n then
        fold (\<lambda>child r.
                case r of
                  Inl f \<Rightarrow> Inl f
                | Inr ts' \<Rightarrow>
                    if length ts' \<le> child then Inl OutOfBounds
                    else
                      (case ts' ! child of
                         None \<Rightarrow> Inr ts'
                       | Some c \<Rightarrow>
                           (case ts' ! idx of
                              None \<Rightarrow> Inl NullDeref
                            | Some p \<Rightarrow>
                                if t_prio (st c) \<le>s t_prio (st p)
                                then sift_down st n (ts'[idx := ts' ! child, child := ts' ! idx]) child
                                else Inr ts')))
          [heap_d * idx + 1 ..< min tasks_per_heap (heap_d * idx + heap_d + 1)] (Inr ts)
      else Inr ts)"
  by pat_completeness auto
termination
  by (relation "measure (\<lambda>(st, n, ts, idx). tasks_per_heap - idx)")
     (auto simp: heap_d_def tasks_per_heap_def)

text \<open>
  \<^verbatim>\<open>do { rn = cong(...); } while (!jl_mutex_trylock_nogc(&heaps[rn].lock));\<close>
  The list holds the indices the generator draws; when it is used up the loop has not
  ended.
\<close>

fun pick_heap :: "taskheap list \<Rightarrow> nat list \<Rightarrow> fault + nat" where
  "pick_heap heaps [] = Inl NoProgress"
| "pick_heap heaps (rn # rns) =
     (if length heaps \<le> rn then Inl OutOfBounds
      else if hp_lock (heaps ! rn) then pick_heap heaps rns
      else Inr rn)"

text \<open>
  \<^verbatim>\<open>multiq_insert\<close> in its two parts. Up to the unlock: the priority is stored in the
  task, a heap is chosen and, unless it is full, the task is appended and sifted up. The
  result is the return code, the chosen heap and the new store and heaps.
\<close>

definition multiq_insert_locked ::
  "(nat \<Rightarrow> jl_task) \<Rightarrow> taskheap list \<Rightarrow> nat list \<Rightarrow> nat \<Rightarrow> 16 word \<Rightarrow>
   fault + (int \<times> nat \<times> (nat \<Rightarrow> jl_task) \<times> taskheap list)" where
  "multiq_insert_locked st heaps rns task priority =
     (let st1 = st(task := (st task)\<lparr>t_prio := priority\<rparr>)
      in case pick_heap heaps rns of
           Inl f \<Rightarrow> Inl f
         | Inr rn \<Rightarrow>
             let hp = heaps ! rn
             in if hp_ntasks hp \<ge> int tasks_per_heap then Inr (- 1, rn, st1, heaps)
                else if hp_ntasks hp < 0 \<or> int (length (hp_tasks hp)) \<le> hp_ntasks hp
                then Inl OutOfBounds
                else
                  let ts1 = (hp_tasks hp)[nat (hp_ntasks hp) := Some task];
                      n1 = hp_ntasks hp + 1
                  in case sift_up st1 ts1 (nat (n1 - 1)) of
                       Inl f \<Rightarrow> Inl f
                     | Inr ts2 \<Rightarrow>
                         Inr (0, rn, st1, heaps[rn := hp\<lparr>hp_tasks := ts2, hp_ntasks := n1\<rparr>]))"

text \<open>
  After the unlock: \<^verbatim>\<open>prio = jl_atomic_load(&heaps[rn].prio); if (task->prio < prio)
  jl_atomic_compare_exchange(&heaps[rn].prio, prio, task->prio);\<close>
\<close>

definition multiq_insert_publish ::
  "(nat \<Rightarrow> jl_task) \<Rightarrow> taskheap list \<Rightarrow> nat \<Rightarrow> nat \<Rightarrow> taskheap list" where
  "multiq_insert_publish st heaps rn task =
     (let prio = hp_prio (heaps ! rn)
      in if t_prio (st task) <s prio
         then heaps[rn := (heaps ! rn)\<lparr>hp_prio := t_prio (st task)\<rparr>]
         else heaps)"

definition multiq_insert ::
  "(nat \<Rightarrow> jl_task) \<Rightarrow> taskheap list \<Rightarrow> nat list \<Rightarrow> nat \<Rightarrow> 16 word \<Rightarrow>
   fault + (int \<times> (nat \<Rightarrow> jl_task) \<times> taskheap list)" where
  "multiq_insert st heaps rns task priority =
     (case multiq_insert_locked st heaps rns task priority of
        Inl f \<Rightarrow> Inl f
      | Inr (rc, rn, st1, heaps1) \<Rightarrow>
          if rc \<noteq> 0 then Inr (rc, st1, heaps1)
          else Inr (0, st1, multiq_insert_publish st1 heaps1 rn task))"

text \<open>
  One round of the probe loop of \<^verbatim>\<open>multiq_deletemin\<close>, for the two indices drawn:
  \<open>Some rn\<close> when the round ends in the \<^verbatim>\<open>break\<close> with heap \<open>rn\<close> locked, \<open>None\<close>
  when the loop goes on.
\<close>

definition probe_round :: "taskheap list \<Rightarrow> nat \<Rightarrow> nat \<Rightarrow> fault + nat option" where
  "probe_round heaps rn1 rn2 =
     (if length heaps \<le> rn1 \<or> length heaps \<le> rn2 then Inl OutOfBounds
      else
        let prio1 = hp_prio (heaps ! rn1);
            prio2 = hp_prio (heaps ! rn2)
        in if prio2 <s prio1 then
             (if \<not> hp_lock (heaps ! rn2) \<and> prio2 = hp_prio (heaps ! rn2)
              then Inr (Some rn2) else Inr None)
           else if prio1 = prio2 \<and> prio1 = INT16_MAX then Inr None
           else
             (if \<not> hp_lock (heaps ! rn1) \<and> prio1 = hp_prio (heaps ! rn1)
              then Inr (Some rn1) else Inr None))"

text \<open>
  The loop. The list holds the two indices drawn in each of the \<open>jl_n_threads\<close>
  rounds; the result is \<open>None\<close> when \<open>i == jl_n_threads\<close>.
\<close>

fun deletemin_probe :: "taskheap list \<Rightarrow> (nat \<times> nat) list \<Rightarrow> fault + nat option" where
  "deletemin_probe heaps [] = Inr None"
| "deletemin_probe heaps ((rn1, rn2) # draws) =
     (case probe_round heaps rn1 rn2 of
        Inl f \<Rightarrow> Inl f
      | Inr (Some rn) \<Rightarrow> Inr (Some rn)
      | Inr None \<Rightarrow> deletemin_probe heaps draws)"

text \<open>
  \<^verbatim>\<open>multiq_deletemin\<close>: the extraction from the heap the probe loop committed to. The
  object store is only read.
\<close>

definition multiq_deletemin ::
  "(nat \<Rightarrow> jl_task) \<Rightarrow> taskheap list \<Rightarrow> (nat \<times> nat) list \<Rightarrow>
   fault + (nat option \<times> taskheap list)" where
  "multiq_deletemin st heaps draws =
     (case deletemin_probe heaps draws of
        Inl f \<Rightarrow> Inl f
      | Inr None \<Rightarrow> Inr (None, heaps)
      | Inr (Some rn1) \<Rightarrow>
          let hp = heaps ! rn1;
              ts = hp_tasks hp;
              n1 = hp_ntasks hp - 1
          in if n1 < 0 \<or> int (length ts) \<le> n1 then Inl OutOfBounds
             else
               let task = ts ! 0;
                   ts1 = ts[0 := ts ! nat n1];
                   ts2 = ts1[nat n1 := None]
               in if n1 > 0 then
                    (case sift_down st n1 ts2 0 of
                       Inl f \<Rightarrow> Inl f
                     | Inr ts3 \<Rightarrow>
                         (case ts3 ! 0 of
                            None \<Rightarrow> Inl NullDeref
                          | Some r \<Rightarrow>
                              Inr (task, heaps[rn1 := hp\<lparr>hp_tasks := ts3, hp_ntasks := n1,
                                                        hp_prio := t_prio (st r)\<rparr>])))
                  else Inr (task, heaps[rn1 := hp\<lparr>hp_tasks := ts2, hp_ntasks := n1,
                                                  hp_prio := INT16_MAX\<rparr>]))"

subsection \<open>Grains ascending the arrival tree concurrently\<close>

text \<open>
  The ascent of \<^verbatim>\<open>last_arriver\<close> (and of \<^verbatim>\<open>reduce\<close>, which performs the same
  operations on the arriver), one atomic operation at a time. A grain is at its entry, at
  the head of the \<^verbatim>\<open>while\<close> loop with a value of \<open>aidx\<close>, or has returned; one step at
  the loop head tests \<open>aidx > 0\<close> and performs the \<^verbatim>\<open>jl_atomic_fetch_add\<close> on the parent's
  counter. The other statements of the loop touch local variables only.
\<close>

datatype grain_pc = Entry | Loop nat | Done int | Crashed

definition grain_step :: "nat \<Rightarrow> 16 word list \<Rightarrow> nat \<Rightarrow> grain_pc \<Rightarrow> 16 word list \<times> grain_pc" where
  "grain_step G tree idx pc =
     (case pc of
        Entry \<Rightarrow> (tree, Loop (idx + G - 1))
      | Loop aidx \<Rightarrow>
          if aidx > 0 then
            let aidx' = (aidx - 1) div 2
            in if length tree \<le> aidx' then (tree, Crashed)
               else
                 let arrived = tree ! aidx'
                 in (tree[aidx' := arrived + 1], if arrived = 0 then Done 0 else Loop aidx')
          else (tree, Done 1)
      | Done r \<Rightarrow> (tree, Done r)
      | Crashed \<Rightarrow> (tree, Crashed))"

text \<open>
  The fan-out: the shared tree and the state of each grain. A schedule is the list of
  the grains that take the next step, in order; any interleaving of the grains' atomic
  operations is a schedule.
\<close>

definition fanout_step :: "16 word list \<times> grain_pc list \<Rightarrow> nat \<Rightarrow> 16 word list \<times> grain_pc list" where
  "fanout_step s i =
     (let (tree, pcs) = s
      in if i < length pcs
         then let (tree', pc') = grain_step (length pcs) tree i (pcs ! i)
              in (tree', pcs[i := pc'])
         else s)"

definition fanout_run :: "nat list \<Rightarrow> 16 word list \<times> grain_pc list \<Rightarrow> 16 word list \<times> grain_pc list" where
  "fanout_run sched s = foldl fanout_step s sched"

definition fanout_init :: "nat \<Rightarrow> 16 word list \<times> grain_pc list" where
  "fanout_init G = (replicate (G - 1) 0, replicate G Entry)"

definition all_returned :: "grain_pc list \<Rightarrow> bool" where
  "all_returned pcs = list_all (\<lambda>pc. case pc of Done r \<Rightarrow> True | _ \<Rightarrow> False) pcs"

subsection \<open>An example host and example states\<close>

text \<open>
  A host for concrete runs. The callable \<open>jl_func 0\<close> compiles to a constant return;
  every other \<open>jl_func k\<close> is integer addition of two arguments and raises a method
  error (\<open>jl_exception 0\<close>) on any other argument vector. Pages are 4096 bytes,
  \<^verbatim>\<open>mprotect\<close> succeeds, and fresh tree nodes hold zeros.
\<close>

definition example_host :: host where
  "example_host =
     \<lparr>jl_compile = (\<lambda>args. case args of
                        jl_func (Suc k) # _ \<Rightarrow> jl_fptr (Suc k)
                      | _ \<Rightarrow> jl_fptr_const_return),
      jl_call = (\<lambda>f args. case args of
                        [jl_func k, jl_int a, jl_int b] \<Rightarrow> Inr (jl_int (a + b))
                      | _ \<Rightarrow> Inl (jl_exception 0)),
      jl_page_size = 4096, mprotect_ok = (\<lambda>_. True),
      uninit_counter = (\<lambda>_ _. 0), uninit_slot = (\<lambda>_ _. None)\<rparr>"

definition blank_task :: jl_task where
  "blank_task =
     \<lparr>t_args = jl_nothing, t_fptr = jl_fptr_const_return, t_result = None, t_next = None,
      t_state = runnable_sym, t_started = False, t_current_tid = 0, t_sticky_tid = 0,
      t_parent = None, t_arr = None, t_red = None, t_red_result = None, t_grain_num = 0,
      t_ssize = 0, t_stkbuf = 0, t_ctx = ctx_uninit, t_prio = 0, t_start = 0, t_end = 0,
      t_rargs = None, t_rfptr = None\<rparr>"

definition blank_state :: rt_state where
  "blank_state =
     \<lparr>arriverpool = [], num_arrivers = 0, num_arriver_tree_nodes = 0, next_arriver = - 1,
      reducerpool = [], num_reducers = 0, num_reducer_tree_nodes = 0, next_reducer = - 1,
      tasks = (\<lambda>_. blank_task), next_free = 0\<rparr>"

text \<open>
  The pools as \<^verbatim>\<open>synctreepool_init\<close> leaves them for \<open>GRAIN_K = 1\<close>, two threads,
  \<open>ARRIVERS_P = 2\<close> and \<open>REDUCERS_FRAC = 1\<close>: five arrivers and five reducers.
\<close>

definition pool_state :: rt_state where
  "pool_state =
     (case synctreepool_init example_host 1 2 2 1 blank_state of
        Inr s \<Rightarrow> s
      | Inl f \<Rightarrow> blank_state)"

text \<open>A heap at capacity, and a heap that holds the single task \<open>1\<close> of priority 5.\<close>

definition full_heap :: taskheap where
  "full_heap =
     \<lparr>hp_lock = False, hp_tasks = map Some [1..<130], hp_ntasks = 129, hp_prio = 0\<rparr>"

definition one_heap :: taskheap where
  "one_heap =
     \<lparr>hp_lock = False, hp_tasks = (replicate tasks_per_heap None)[0 := Some 1],
      hp_ntasks = 1, hp_prio = 5\<rparr>"

definition prio5_store :: "nat \<Rightarrow> jl_task" where
  "prio5_store = (\<lambda>_. blank_task\<lparr>t_prio := 5\<rparr>)"

subsection \<open>Invariants of a heap\<close>

text \<open>
  The data model's invariants of a heap: the count is within \<open>[0, tasks_per_heap]\<close>, the
  slots below the count hold tasks and the slots from the count on are \<^verbatim>\<open>NULL\<close>; the
  \<open>d\<close>-ary heap order on priorities; the published summary is the priority of the root,
  or \<open>INT16_MAX\<close> for an empty heap.
\<close>

definition heap_wf :: "taskheap \<Rightarrow> bool" where
  "heap_wf hp \<longleftrightarrow>
     length (hp_tasks hp) = tasks_per_heap \<and> 0 \<le> hp_ntasks hp \<and>
     hp_ntasks hp \<le> int tasks_per_heap \<and>
     None \<notin> set (take (nat (hp_ntasks hp)) (hp_tasks hp)) \<and>
     set (drop (nat (hp_ntasks hp)) (hp_tasks hp)) \<subseteq> {None}"

definition heap_order :: "(nat \<Rightarrow> jl_task) \<Rightarrow> taskheap \<Rightarrow> bool" where
  "heap_order st hp \<longleftrightarrow>
     (\<forall>i\<in>{1..<nat (hp_ntasks hp)}.
        case (hp_tasks hp ! ((i - 1) div heap_d), hp_tasks hp ! i) of
          (Some p, Some c) \<Rightarrow> t_prio (st p) \<le>s t_prio (st c)
        | _ \<Rightarrow> False)"

definition summary_ok :: "(nat \<Rightarrow> jl_task) \<Rightarrow> taskheap \<Rightarrow> bool" where
  "summary_ok st hp \<longleftrightarrow>
     (if hp_ntasks hp > 0
      then (case hp_tasks hp ! 0 of
              Some r \<Rightarrow> hp_prio hp = t_prio (st r)
            | None \<Rightarrow> False)
      else hp_prio hp = INT16_MAX)"

text \<open>A task lies in a heap when one of the slots points to it.\<close>

definition task_in_heap :: "nat \<Rightarrow> taskheap \<Rightarrow> bool" where
  "task_in_heap t hp \<longleftrightarrow> Some t \<in> set (hp_tasks hp)"

text \<open>
  For the proofs: the shape of a slot array with \<open>n\<close> tasks, the priority behind slot
  \<open>i\<close> as an integer, the heap order for all parents outside a set \<open>E\<close>, and the body of
  the loop of \<^verbatim>\<open>sift_down\<close>.
\<close>

definition shape :: "int \<Rightarrow> nat option list \<Rightarrow> bool" where
  "shape n ts \<longleftrightarrow>
     length ts = tasks_per_heap \<and> 0 \<le> n \<and> n \<le> int tasks_per_heap \<and>
     (\<forall>i<tasks_per_heap. (ts ! i = None) = (n \<le> int i))"

definition key :: "(nat \<Rightarrow> jl_task) \<Rightarrow> nat option list \<Rightarrow> nat \<Rightarrow> int" where
  "key st ts i = sint (t_prio (st (the (ts ! i))))"

definition ord_except :: "(nat \<Rightarrow> jl_task) \<Rightarrow> int \<Rightarrow> nat option list \<Rightarrow> nat set \<Rightarrow> bool" where
  "ord_except st n ts E \<longleftrightarrow>
     (\<forall>i. 0 < i \<and> int i < n \<and> (i - 1) div heap_d \<notin> E \<longrightarrow>
          key st ts ((i - 1) div heap_d) \<le> key st ts i)"

definition sift_body ::
  "(nat \<Rightarrow> jl_task) \<Rightarrow> int \<Rightarrow> nat \<Rightarrow> nat \<Rightarrow> fault + nat option list \<Rightarrow> fault + nat option list" where
  "sift_body st n idx child r =
     (case r of
        Inl f \<Rightarrow> Inl f
      | Inr ts' \<Rightarrow>
          if length ts' \<le> child then Inl OutOfBounds
          else
            (case ts' ! child of
               None \<Rightarrow> Inr ts'
             | Some c \<Rightarrow>
                 (case ts' ! idx of
                    None \<Rightarrow> Inl NullDeref
                  | Some p \<Rightarrow>
                      if t_prio (st c) \<le>s t_prio (st p)
                      then sift_down st n (ts'[idx := ts' ! child, child := ts' ! idx]) child
                      else Inr ts')))"

text \<open>
  What \<^verbatim>\<open>sift_down\<close> at \<open>idx\<close> achieves, from the array \<open>ts\<close> to the array \<open>ts'\<close>,
  and the two invariants of its loop when the children below \<open>a\<close> have been visited.
\<close>

definition sift_down_post ::
  "(nat \<Rightarrow> jl_task) \<Rightarrow> int \<Rightarrow> nat \<Rightarrow> nat option list \<Rightarrow> nat option list \<Rightarrow> bool" where
  "sift_down_post st n idx ts ts' \<longleftrightarrow>
     shape n ts' \<and>
     (\<forall>i. i \<noteq> idx \<and> i < heap_d * idx + 1 \<longrightarrow> ts' ! i = ts ! i) \<and>
     (\<forall>E. (idx = 0 \<or> (idx - 1) div heap_d \<in> E) \<and> (\<forall>e\<in>E. e < idx) \<and>
           ord_except st n ts (insert idx E) \<longrightarrow> ord_except st n ts' E) \<and>
     (\<forall>m. m \<le> key st ts idx \<and>
           (\<forall>c. 0 < c \<and> int c < n \<and> (c - 1) div heap_d = idx \<longrightarrow> m \<le> key st ts c) \<longrightarrow>
           m \<le> key st ts' idx)"

definition sift_ord_inv ::
  "(nat \<Rightarrow> jl_task) \<Rightarrow> int \<Rightarrow> nat \<Rightarrow> nat set \<Rightarrow> nat \<Rightarrow> nat option list \<Rightarrow> bool" where
  "sift_ord_inv st n idx E a ts \<longleftrightarrow>
     ord_except st n ts (insert idx E) \<and>
     (\<forall>c. heap_d * idx + 1 \<le> c \<and> c < a \<and> int c < n \<longrightarrow> key st ts idx \<le> key st ts c)"

definition sift_lb_inv ::
  "(nat \<Rightarrow> jl_task) \<Rightarrow> int \<Rightarrow> nat \<Rightarrow> int \<Rightarrow> nat \<Rightarrow> nat option list \<Rightarrow> bool" where
  "sift_lb_inv st n idx m a ts \<longleftrightarrow>
     m \<le> key st ts idx \<and>
     (\<forall>c. a \<le> c \<and> 0 < c \<and> int c < n \<and> (c - 1) div heap_d = idx \<longrightarrow> m \<le> key st ts c)"

text \<open>
  A heap that holds the tasks \<open>0\<close> and \<open>1\<close>, and a store in which task \<open>0\<close> has
  priority 3 and every other task priority 5.
\<close>

definition two_heap :: taskheap where
  "two_heap =
     \<lparr>hp_lock = False, hp_tasks = (replicate tasks_per_heap None)[0 := Some 0, 1 := Some 1],
      hp_ntasks = 2, hp_prio = 3\<rparr>"

definition prio35_store :: "nat \<Rightarrow> jl_task" where
  "prio35_store = prio5_store(0 := blank_task\<lparr>t_prio := 3\<rparr>)"

subsection \<open>Proof devices for the arrival tree\<close>

text \<open>
  \<open>tok pcs c\<close> counts the grains standing at node \<open>c\<close> (at the loop head with
  \<open>aidx = c\<close>); \<open>passed tree pcs c\<close> counts the grains that have reached node \<open>c\<close> so far:
  for a leaf, whether its grain has left the entry, for an inner node, the arrivals at it
  after the first, which returned. \<open>contrib\<close> is the number of grains that have gone on from
  \<open>c\<close> to its parent, and the counter of a node is the sum of its children's contributions.
  \<open>steps_left\<close> bounds the steps a grain still takes.
\<close>

definition tok :: "grain_pc list \<Rightarrow> nat \<Rightarrow> nat" where
  "tok pcs c = count_list pcs (Loop c)"

definition passed :: "16 word list \<Rightarrow> grain_pc list \<Rightarrow> nat \<Rightarrow> nat" where
  "passed tree pcs c =
     (if c < length pcs - 1 then unat (tree ! c) - 1
      else if pcs ! (c - (length pcs - 1)) = Entry then 0 else 1)"

definition contrib :: "16 word list \<Rightarrow> grain_pc list \<Rightarrow> nat \<Rightarrow> nat" where
  "contrib tree pcs c = passed tree pcs c - tok pcs c"

definition fanout_inv :: "16 word list \<times> grain_pc list \<Rightarrow> bool" where
  "fanout_inv s \<longleftrightarrow>
     (case s of (tree, pcs) \<Rightarrow>
        1 \<le> length pcs \<and> length tree = length pcs - 1 \<and>
        (\<forall>k<length pcs - 1.
           unat (tree ! k) = contrib tree pcs (2 * k + 1) + contrib tree pcs (2 * k + 2)) \<and>
        (\<forall>c<2 * length pcs - 1. tok pcs c \<le> passed tree pcs c) \<and>
        passed tree pcs 0 = tok pcs 0 + count_list pcs (Done 1) \<and>
        (\<forall>c\<ge>2 * length pcs - 1. tok pcs c = 0) \<and>
        Crashed \<notin> set pcs \<and> (\<forall>r. Done r \<in> set pcs \<longrightarrow> r = 0 \<or> r = 1))"

definition steps_left :: "nat \<Rightarrow> grain_pc \<Rightarrow> nat" where
  "steps_left G pc = (case pc of Entry \<Rightarrow> 2 * G | Loop a \<Rightarrow> a + 1 | Done r \<Rightarrow> 0 | Crashed \<Rightarrow> 0)"

section \<open>Properties\<close>

lemmas pool_simps = pool_state_def synctreepool_init_def int16_def Let_def upt_rec
  init_arriver_def init_reducer_def example_host_def blank_state_def

lemmas new_multi_simps = jl_task_new_multi_def lldiv_def arriver_alloc_def grain_alloc_def
  jl_task_new_def setup_task_fun_def arg_vector_def grain_init_def LLT_ALIGN_def

subsection \<open>Reduction over a grain fan-out\<close>

text \<open>
  C1 (the code departs from the claim). Two grains, \<open>G = 2\<close>, with the values 1 and 2 and
  integer addition as the reduction: grain 0 arrives first and \<^verbatim>\<open>reduce\<close> returns
  \<^verbatim>\<open>NULL\<close>; grain 1 arrives last, and what \<^verbatim>\<open>reduce\<close> returns, and stores at the root, is
  the outcome of calling the reduction on its own argument vector, here a method error,
  not \<open>1 + 2\<close>. Neither grain's value is passed to the callable.
\<close>

theorem reduce_ignores_grain_values:
  "reduce example_host 2 [0] [None, None, None] (jl_fptr 1) (jl_func 1) (Some (jl_int 1)) 0
     = Inr (None, [1], [None, Some (jl_int 1), None]) \<and>
   reduce example_host 2 [1] [None, Some (jl_int 1), None] (jl_fptr 1) (jl_func 1)
       (Some (jl_int 2)) 1
     = Inr (Some (jl_exception 0), [2],
            [Some (jl_exception 0), Some (jl_int 1), Some (jl_int 2)]) \<and>
   jl_exception 0 \<noteq> jl_int (1 + 2)"
  by (simp add: reduce_def example_host_def arg_vector_def Let_def)

subsection \<open>Insertion into a full heap\<close>

text \<open>
  C2, as stated, fails: the task's priority is stored before the capacity check. Here a
  task of priority 0 is inserted with priority 7 into a full heap.
\<close>

theorem multiq_insert_full_sets_prio:
  "case multiq_insert (\<lambda>_. blank_task) [full_heap] [0] 0 7 of
     Inl f \<Rightarrow> False
   | Inr (rc, st', heaps') \<Rightarrow>
       rc = - 1 \<and> heaps' = [full_heap] \<and> t_prio (st' 0) = 7 \<and> t_prio blank_task = 0"
  by (simp add: multiq_insert_def multiq_insert_locked_def full_heap_def tasks_per_heap_def
      blank_task_def)

text \<open>
  C2, amended: when the heap chosen is at capacity, \<^verbatim>\<open>multiq_insert\<close> returns \<open>-1\<close>, every
  heap (slot array, count, published summary) is as before, and the object store differs
  only in the priority field of the task, which is set to the priority given.
\<close>

theorem multiq_insert_full:
  "pick_heap heaps rns = Inr rn \<Longrightarrow> hp_ntasks (heaps ! rn) \<ge> int tasks_per_heap \<Longrightarrow>
   multiq_insert st heaps rns task priority =
     Inr (- 1, st(task := (st task)\<lparr>t_prio := priority\<rparr>), heaps)"
  by (simp add: multiq_insert_def multiq_insert_locked_def)

theorem multiq_insert_full_witness:
  "pick_heap [full_heap] [0] = Inr 0 \<and> hp_ntasks ([full_heap] ! 0) \<ge> int tasks_per_heap \<and>
   multiq_insert (\<lambda>_. blank_task) [full_heap] [0] 0 7 =
     Inr (- 1, (\<lambda>_. blank_task)(0 := blank_task\<lparr>t_prio := 7\<rparr>), [full_heap])"
  using multiq_insert_full [of "[full_heap]" "[0]" 0 "\<lambda>_. blank_task" 0 7]
  by (simp add: full_heap_def tasks_per_heap_def)

subsection \<open>Failures of \<^verbatim>\<open>jl_task_new_multi\<close>\<close>

text \<open>
  C3 (the code departs from the claim). The callable \<open>jl_func 0\<close> compiles to a constant
  return, so \<^verbatim>\<open>jl_task_new\<close> gives \<^verbatim>\<open>NULL\<close> for the first grain and
  \<^verbatim>\<open>jl_task_new_multi\<close> returns \<^verbatim>\<open>NULL\<close> at \<^verbatim>\<open>if (t == NULL) return NULL;\<close>: the arriver
  it took (element 0) is not back on the free list.
\<close>

theorem new_multi_leaks_arriver:
  "case jl_task_new_multi example_host 1 2 None pool_state (jl_func 0) 10 None of
     Inl f \<Rightarrow> False
   | Inr (r, s') \<Rightarrow>
       r = None \<and> next_arriver pool_state = 0 \<and> next_arriver s' = 1 \<and>
       free_arrivers (arriverpool pool_state) 5 (next_arriver pool_state) = [0, 1, 2, 3, 4] \<and>
       free_arrivers (arriverpool s') 5 (next_arriver s') = [1, 2, 3, 4]"
  by (simp add: pool_simps new_multi_simps eval_nat_numeral)

subsection \<open>The grains of a fan-out\<close>

text \<open>
  C7 (the code departs from the claim). With two grains the loop of
  \<^verbatim>\<open>jl_task_new_multi\<close> reaches \<^verbatim>\<open>prev->next = t\<close> for the second grain while \<open>prev\<close> is
  still \<^verbatim>\<open>NULL\<close>: the call faults and no split of \<open>[0, 10)\<close> is returned.
\<close>

theorem new_multi_two_grains_faults:
  "jl_task_new_multi example_host 1 2 None pool_state (jl_func 1) 10 None = Inl NullDeref"
  by (simp add: pool_simps new_multi_simps)

text \<open>
  C9 (the code departs from the claim). The first grain is made by \<^verbatim>\<open>jl_task_new\<close>; the
  object of the second is a fresh one filled by \<^verbatim>\<open>memcpy\<close> from the first, so it has the
  stack buffer and the saved context of the first: no stack of its own.
\<close>

theorem grain_shares_stack:
  "case jl_task_new example_host None pool_state (jl_func 1) of
     Inr (Some task, s1) \<Rightarrow>
       (case grain_alloc example_host None s1 (jl_func 1) (Some task) of
          Inr (Some t, task', s2) \<Rightarrow>
            t \<noteq> task \<and> t_stkbuf (tasks s2 t) = t_stkbuf (tasks s2 task) \<and>
            t_ctx (tasks s2 t) = t_ctx (tasks s2 task) \<and>
            t_ctx (tasks s2 t) = ctx_entry task 8192
        | _ \<Rightarrow> False)
   | _ \<Rightarrow> False"
  by (simp add: pool_simps new_multi_simps)

subsection \<open>Pool sizes\<close>

text \<open>
  C8 (the code departs from the claim). With \<open>ARRIVERS_P = 3\<close> and \<open>G = 2\<close> the loop
  squares twice: the pools hold \<open>2 ^ 4 + 1 = 17\<close> elements, not \<open>2 ^ 3 + 1 = 9\<close>.
\<close>

theorem synctreepool_init_arrivers_p3:
  "case synctreepool_init h 1 2 3 1 st of
     Inl f \<Rightarrow> False
   | Inr s \<Rightarrow>
       num_arrivers s = 17 \<and> length (arriverpool s) = 17 \<and> num_reducers s = 17 \<and>
       length (reducerpool s) = 17 \<and> num_arrivers s \<noteq> (1 * 2) ^ 3 + 1"
  by (simp add: synctreepool_init_def int16_def Let_def)

subsection \<open>The heaps of the multiqueue\<close>

declare sift_down.simps [simp del] sift_up.simps [simp del]

lemma sift_down_unfold:
  "sift_down st n ts idx =
     (if int idx < n
      then fold (sift_body st n idx)
             [heap_d * idx + 1 ..< min tasks_per_heap (heap_d * idx + heap_d + 1)] (Inr ts)
      else Inr ts)"
  by (subst sift_down.simps) (simp add: sift_body_def [abs_def])

lemma shape_of_wf: "heap_wf hp \<Longrightarrow> shape (hp_ntasks hp) (hp_tasks hp)"
  unfolding heap_wf_def shape_def
  apply (intro conjI allI impI; (elim conjE)?)
     apply simp_all
  apply (rule iffI)
  subgoal for i
    apply (rule ccontr)
    apply (subgoal_tac "hp_tasks hp ! i \<in> set (take (nat (hp_ntasks hp)) (hp_tasks hp))")
     apply simp
    apply (simp add: in_set_conv_nth)
    apply (rule exI[of _ i]) apply simp
    done
  subgoal for i
    apply (subgoal_tac "hp_tasks hp ! i \<in> set (drop (nat (hp_ntasks hp)) (hp_tasks hp))")
     apply blast
    apply (simp add: in_set_conv_nth)
    apply (rule exI[of _ "i - nat (hp_ntasks hp)"]) apply simp
    done
  done

lemma wf_of_shape: "shape (hp_ntasks hp) (hp_tasks hp) \<Longrightarrow> heap_wf hp"
  unfolding heap_wf_def shape_def
  by (auto simp: in_set_conv_nth)

lemma key_cong: "ts1 ! i = ts2 ! i \<Longrightarrow> key st ts1 i = key st ts2 i"
  by (simp add: key_def)

lemma key_swap:
  "idx \<noteq> a \<Longrightarrow> idx < length ts \<Longrightarrow> a < length ts \<Longrightarrow>
   key st (ts[idx := ts ! a, a := ts ! idx]) i =
     (if i = a then key st ts idx else if i = idx then key st ts a else key st ts i)"
  by (simp add: key_def nth_list_update)

lemma shape_swap:
  assumes "shape n ts" "int idx < n" "int a < n"
  shows "shape n (ts[idx := ts ! a, a := ts ! idx])"
proof -
  have "idx < tasks_per_heap" "a < tasks_per_heap" using assms by (auto simp: shape_def)
  then show ?thesis using assms
    by (auto simp: shape_def nth_list_update)
qed

lemma child_facts:
  assumes "heap_d * idx + 1 \<le> a" "a < min tasks_per_heap (heap_d * idx + heap_d + 1)"
  shows "(a - 1) div heap_d = idx" "idx < a" "a < tasks_per_heap" "0 < a"
    "\<And>c. 0 < c \<Longrightarrow> (c - 1) div heap_d = idx \<Longrightarrow> c < heap_d * a + 1"
    "heap_d * idx + 1 < heap_d * a + 1"
  using assms unfolding heap_d_def by auto

lemma child_range:
  assumes "0 < c" "(c - 1) div heap_d = idx" "int c < n" "n \<le> int tasks_per_heap"
  shows "heap_d * idx + 1 \<le> c" "c < min tasks_per_heap (heap_d * idx + heap_d + 1)"
  using assms unfolding heap_d_def by auto

lemma sift_step:
  assumes IH: "\<And>child ts. idx < child \<Longrightarrow> shape n ts \<Longrightarrow>
              \<exists>ts'. sift_down st n ts child = Inr ts' \<and> sift_down_post st n child ts ts'"
    and idx: "int idx < n" and sh: "shape n ts"
    and lo: "heap_d * idx + 1 \<le> a" and hi: "a < min tasks_per_heap (heap_d * idx + heap_d + 1)"
  shows "\<exists>ts1. sift_body st n idx a (Inr ts) = Inr ts1 \<and> shape n ts1 \<and>
           (\<forall>i. i \<noteq> idx \<and> i < heap_d * idx + 1 \<longrightarrow> ts1 ! i = ts ! i) \<and>
           (\<forall>E. (idx = 0 \<or> (idx - 1) div heap_d \<in> E) \<and> (\<forall>e\<in>E. e < idx) \<and>
                 sift_ord_inv st n idx E a ts \<longrightarrow> sift_ord_inv st n idx E (Suc a) ts1) \<and>
           (\<forall>m. sift_lb_inv st n idx m a ts \<longrightarrow> sift_lb_inv st n idx m (Suc a) ts1)"
proof -
  note cf = child_facts [OF lo hi]
  have len: "length ts = tasks_per_heap" using sh by (simp add: shape_def)
  have idx_lt: "idx < tasks_per_heap" using cf by simp
  have idx_some: "ts ! idx \<noteq> None" using sh idx idx_lt by (simp add: shape_def)
  then obtain p where p: "ts ! idx = Some p" by auto
  show ?thesis
  proof (cases "ts ! a")
    case None
    then have na: "\<not> int a < n" using sh cf by (auto simp: shape_def)
    have "sift_body st n idx a (Inr ts) = Inr ts"
      using None cf len by (simp add: sift_body_def)
    moreover have "\<And>E. sift_ord_inv st n idx E a ts \<Longrightarrow> sift_ord_inv st n idx E (Suc a) ts"
      using na by (auto simp: sift_ord_inv_def less_Suc_eq)
    moreover have "\<And>m. sift_lb_inv st n idx m a ts \<Longrightarrow> sift_lb_inv st n idx m (Suc a) ts"
      by (auto simp: sift_lb_inv_def)
    ultimately show ?thesis using sh by auto
  next
    case (Some c)
    then have an: "int a < n" using sh cf by (auto simp: shape_def)
    have ka: "key st ts a = sint (t_prio (st c))" using Some by (simp add: key_def)
    have kp: "key st ts idx = sint (t_prio (st p))" using p by (simp add: key_def)
    show ?thesis
    proof (cases "t_prio (st c) \<le>s t_prio (st p)")
      case False
      then have lt: "key st ts idx \<le> key st ts a" using ka kp by (simp add: word_sle_eq)
      have "sift_body st n idx a (Inr ts) = Inr ts"
        using Some p False cf len by (simp add: sift_body_def)
      moreover have "\<And>E. sift_ord_inv st n idx E a ts \<Longrightarrow> sift_ord_inv st n idx E (Suc a) ts"
        using lt by (auto simp: sift_ord_inv_def less_Suc_eq)
      moreover have "\<And>m. sift_lb_inv st n idx m a ts \<Longrightarrow> sift_lb_inv st n idx m (Suc a) ts"
        by (auto simp: sift_lb_inv_def)
      ultimately show ?thesis using sh by auto
    next
      case True
      then have le: "key st ts a \<le> key st ts idx" using ka kp by (simp add: word_sle_eq)
      define sw where "sw = ts[idx := ts ! a, a := ts ! idx]"
      have sh_sw: "shape n sw" unfolding sw_def using shape_swap [OF sh idx an] .
      have ksw: "\<And>i. key st sw i =
          (if i = a then key st ts idx else if i = idx then key st ts a else key st ts i)"
        unfolding sw_def using key_swap [of idx a ts st] cf len by simp
      from IH [OF cf(2) sh_sw] obtain ts1
        where r: "sift_down st n sw a = Inr ts1" and post: "sift_down_post st n a sw ts1"
        by blast
      have body: "sift_body st n idx a (Inr ts) = Inr ts1"
        using Some p True cf len r by (simp add: sift_body_def sw_def)
      have sh1: "shape n ts1" using post by (simp add: sift_down_post_def)
      have unch: "\<And>i. i \<noteq> a \<Longrightarrow> i < heap_d * a + 1 \<Longrightarrow> ts1 ! i = sw ! i"
        using post by (simp add: sift_down_post_def)
      have k1: "\<And>i. i \<noteq> a \<Longrightarrow> i < heap_d * a + 1 \<Longrightarrow> key st ts1 i = key st sw i"
        by (rule key_cong) (rule unch)
      have "idx < heap_d * a + 1" using cf(2) unfolding heap_d_def by simp
      then have k1_idx: "key st ts1 idx = key st ts a"
        using k1 [of idx] cf ksw [of idx] by simp
      have frame: "\<forall>i. i \<noteq> idx \<and> i < heap_d * idx + 1 \<longrightarrow> ts1 ! i = ts ! i"
      proof (intro allI impI)
        fix i assume i: "i \<noteq> idx \<and> i < heap_d * idx + 1"
        then have "i \<noteq> a" "i < heap_d * a + 1" using lo cf(2) unfolding heap_d_def by auto
        then have "ts1 ! i = sw ! i" using unch by simp
        also have "\<dots> = ts ! i" using i \<open>i \<noteq> a\<close> by (simp add: sw_def)
        finally show "ts1 ! i = ts ! i" .
      qed
      have ord: "sift_ord_inv st n idx E (Suc a) ts1"
        if side: "idx = 0 \<or> (idx - 1) div heap_d \<in> E" and Elt: "\<forall>e\<in>E. e < idx"
          and inv: "sift_ord_inv st n idx E a ts" for E
      proof -
        have O1: "ord_except st n ts (insert idx E)"
          and O2: "\<And>c. heap_d * idx + 1 \<le> c \<Longrightarrow> c < a \<Longrightarrow> int c < n \<Longrightarrow> key st ts idx \<le> key st ts c"
          using inv by (auto simp: sift_ord_inv_def)
        have aE: "a \<notin> insert idx E" using Elt cf(2) by auto
        have pre: "ord_except st n sw (insert a (insert idx E))"
          unfolding ord_except_def
        proof (intro allI impI)
          fix i assume i: "0 < i \<and> int i < n \<and> (i - 1) div heap_d \<notin> insert a (insert idx E)"
          then have pi: "(i - 1) div heap_d \<noteq> a" "(i - 1) div heap_d \<noteq> idx" "(i - 1) div heap_d \<notin> E"
            by auto
          have "i \<noteq> a" using pi cf(1) by auto
          moreover have "i \<noteq> idx" using pi side i by auto
          ultimately have "key st sw i = key st ts i" "key st sw ((i - 1) div heap_d) = key st ts ((i - 1) div heap_d)"
            using ksw pi by auto
          moreover have "key st ts ((i - 1) div heap_d) \<le> key st ts i"
            using O1 i unfolding ord_except_def by auto
          ultimately show "key st sw ((i - 1) div heap_d) \<le> key st sw i" by simp
        qed
        have "(a = 0 \<or> (a - 1) div heap_d \<in> insert idx E) \<and> (\<forall>e\<in>insert idx E. e < a) \<and>
              ord_except st n sw (insert a (insert idx E))"
          using cf Elt pre by auto
        then have o1: "ord_except st n ts1 (insert idx E)"
          using post unfolding sift_down_post_def by blast
        have lb: "key st ts a \<le> key st ts1 a"
        proof -
          have "key st ts a \<le> key st sw a" using ksw [of a] le by simp
          moreover have "\<forall>d. 0 < d \<and> int d < n \<and> (d - 1) div heap_d = a \<longrightarrow> key st ts a \<le> key st sw d"
          proof (intro allI impI)
            fix d assume d: "0 < d \<and> int d < n \<and> (d - 1) div heap_d = a"
            then have "a < d" unfolding heap_d_def by auto
            then have "d \<noteq> a" "d \<noteq> idx" using cf(2) by auto
            then have "key st sw d = key st ts d" using ksw by simp
            moreover have "key st ts ((d - 1) div heap_d) \<le> key st ts d"
              using O1 d aE unfolding ord_except_def by auto
            ultimately show "key st ts a \<le> key st sw d" using d by simp
          qed
          ultimately show ?thesis using post unfolding sift_down_post_def by blast
        qed
        have "key st ts1 idx \<le> key st ts1 c"
          if c: "heap_d * idx + 1 \<le> c" "c < Suc a" "int c < n" for c
        proof (cases "c = a")
          case True
          then show ?thesis using lb k1_idx by simp
        next
          case False
          then have ca: "c < a" using c by simp
          then have "c < heap_d * a + 1" unfolding heap_d_def by simp
          then have "key st ts1 c = key st sw c" using k1 False by simp
          also have "\<dots> = key st ts c" using ksw [of c] False c(1) unfolding heap_d_def by auto
          finally show ?thesis using O2 [OF c(1) ca c(3)] le k1_idx by simp
        qed
        then show ?thesis using o1 unfolding sift_ord_inv_def by blast
      qed
      have lbi: "sift_lb_inv st n idx m (Suc a) ts1" if inv: "sift_lb_inv st n idx m a ts" for m
      proof -
        have "m \<le> key st ts a" using inv an cf unfolding sift_lb_inv_def by auto
        then have "m \<le> key st ts1 idx" using k1_idx by simp
        moreover have "m \<le> key st ts1 c"
          if c: "Suc a \<le> c \<and> 0 < c \<and> int c < n \<and> (c - 1) div heap_d = idx" for c
        proof -
          have "c \<noteq> a" "c \<noteq> idx" "c < heap_d * a + 1" using c cf(5) [of c] cf(2) by auto
          then have "key st ts1 c = key st ts c" using k1 [of c] ksw [of c] by simp
          moreover have "m \<le> key st ts c" using inv c unfolding sift_lb_inv_def by auto
          ultimately show ?thesis by simp
        qed
        ultimately show ?thesis unfolding sift_lb_inv_def by blast
      qed
      show ?thesis using body sh1 frame ord lbi by blast
    qed
  qed
qed

lemma sift_loop:
  assumes IH: "\<And>child ts. idx < child \<Longrightarrow> shape n ts \<Longrightarrow>
              \<exists>ts'. sift_down st n ts child = Inr ts' \<and> sift_down_post st n child ts ts'"
    and idx: "int idx < n"
    and b: "b = min tasks_per_heap (heap_d * idx + heap_d + 1)"
  shows "shape n ts \<Longrightarrow> heap_d * idx + 1 \<le> a \<Longrightarrow> a \<le> b \<Longrightarrow>
         \<exists>ts'. fold (sift_body st n idx) [a..<b] (Inr ts) = Inr ts' \<and> shape n ts' \<and>
           (\<forall>i. i \<noteq> idx \<and> i < heap_d * idx + 1 \<longrightarrow> ts' ! i = ts ! i) \<and>
           (\<forall>E. (idx = 0 \<or> (idx - 1) div heap_d \<in> E) \<and> (\<forall>e\<in>E. e < idx) \<and>
                 sift_ord_inv st n idx E a ts \<longrightarrow> sift_ord_inv st n idx E b ts') \<and>
           (\<forall>m. sift_lb_inv st n idx m a ts \<longrightarrow> sift_lb_inv st n idx m b ts')"
proof (induction "b - a" arbitrary: a ts)
  case 0
  then have "a = b" by simp
  then show ?case using 0 by simp
next
  case (Suc k)
  then have ab: "a < b" by simp
  then have hi: "a < min tasks_per_heap (heap_d * idx + heap_d + 1)" using b by simp
  from sift_step [OF IH idx Suc.prems(1) Suc.prems(2) hi] obtain ts1 where
    s1: "sift_body st n idx a (Inr ts) = Inr ts1" and sh1: "shape n ts1"
    and f1: "\<forall>i. i \<noteq> idx \<and> i < heap_d * idx + 1 \<longrightarrow> ts1 ! i = ts ! i"
    and o1: "\<forall>E. (idx = 0 \<or> (idx - 1) div heap_d \<in> E) \<and> (\<forall>e\<in>E. e < idx) \<and>
                 sift_ord_inv st n idx E a ts \<longrightarrow> sift_ord_inv st n idx E (Suc a) ts1"
    and l1: "\<forall>m. sift_lb_inv st n idx m a ts \<longrightarrow> sift_lb_inv st n idx m (Suc a) ts1"
    by blast
  have k: "k = b - Suc a" using Suc.hyps(2) by simp
  have "heap_d * idx + 1 \<le> Suc a" "Suc a \<le> b" using Suc.prems(2) ab by auto
  from Suc.hyps(1) [OF k sh1 this] obtain ts' where
    s2: "fold (sift_body st n idx) [Suc a..<b] (Inr ts1) = Inr ts'" and sh2: "shape n ts'"
    and f2: "\<forall>i. i \<noteq> idx \<and> i < heap_d * idx + 1 \<longrightarrow> ts' ! i = ts1 ! i"
    and o2: "\<forall>E. (idx = 0 \<or> (idx - 1) div heap_d \<in> E) \<and> (\<forall>e\<in>E. e < idx) \<and>
                 sift_ord_inv st n idx E (Suc a) ts1 \<longrightarrow> sift_ord_inv st n idx E b ts'"
    and l2: "\<forall>m. sift_lb_inv st n idx m (Suc a) ts1 \<longrightarrow> sift_lb_inv st n idx m b ts'"
    by blast
  have "fold (sift_body st n idx) [a..<b] (Inr ts) = Inr ts'"
    using s1 s2 ab by (simp add: upt_conv_Cons)
  moreover have "\<forall>i. i \<noteq> idx \<and> i < heap_d * idx + 1 \<longrightarrow> ts' ! i = ts ! i"
    using f1 f2 by simp
  moreover have "\<forall>E. (idx = 0 \<or> (idx - 1) div heap_d \<in> E) \<and> (\<forall>e\<in>E. e < idx) \<and>
                 sift_ord_inv st n idx E a ts \<longrightarrow> sift_ord_inv st n idx E b ts'"
    using o1 o2 by blast
  moreover have "\<forall>m. sift_lb_inv st n idx m a ts \<longrightarrow> sift_lb_inv st n idx m b ts'"
    using l1 l2 by blast
  ultimately show ?case using sh2 by blast
qed

lemma sift_down_correct:
  "shape n ts \<Longrightarrow> \<exists>ts'. sift_down st n ts idx = Inr ts' \<and> sift_down_post st n idx ts ts'"
proof (induction "tasks_per_heap - idx" arbitrary: idx ts rule: less_induct)
  case less
  define b where "b = min tasks_per_heap (heap_d * idx + heap_d + 1)"
  have nle: "n \<le> int tasks_per_heap" using less.prems by (simp add: shape_def)
  show ?case
  proof (cases "int idx < n \<and> heap_d * idx + 1 \<le> b")
    case False
    have res: "sift_down st n ts idx = Inr ts"
      using False by (auto simp: sift_down_unfold b_def)
    have nochild: "(i - 1) div heap_d \<noteq> idx" if i: "0 < i \<and> int i < n" for i
    proof
      assume p: "(i - 1) div heap_d = idx"
      then have "idx < i" using i unfolding heap_d_def by auto
      moreover have "heap_d * idx + 1 \<le> i" "i < b"
        using child_range [of i idx n] i p nle unfolding b_def by auto
      ultimately show False using False i by auto
    qed
    have "ord_except st n ts E" if "ord_except st n ts (insert idx E)" for E
      using that nochild unfolding ord_except_def by auto
    then have "sift_down_post st n idx ts ts"
      using less.prems unfolding sift_down_post_def by auto
    then show ?thesis using res by simp
  next
    case True
    then have idx: "int idx < n" and ab: "heap_d * idx + 1 \<le> b" by auto
    have idx_lt: "idx < tasks_per_heap" using idx nle by simp
    have IH: "\<exists>ts'. sift_down st n ts child = Inr ts' \<and> sift_down_post st n child ts ts'"
      if "idx < child" "shape n ts" for child ts
      using less.hyps [of child ts] that idx_lt by auto
    from sift_loop [OF IH idx b_def less.prems order_refl ab] obtain ts' where
      r: "fold (sift_body st n idx) [heap_d * idx + 1..<b] (Inr ts) = Inr ts'" and sh: "shape n ts'"
      and fr: "\<forall>i. i \<noteq> idx \<and> i < heap_d * idx + 1 \<longrightarrow> ts' ! i = ts ! i"
      and oi: "\<forall>E. (idx = 0 \<or> (idx - 1) div heap_d \<in> E) \<and> (\<forall>e\<in>E. e < idx) \<and>
                 sift_ord_inv st n idx E (heap_d * idx + 1) ts \<longrightarrow> sift_ord_inv st n idx E b ts'"
      and li: "\<forall>m. sift_lb_inv st n idx m (heap_d * idx + 1) ts \<longrightarrow> sift_lb_inv st n idx m b ts'"
      by blast
    have res: "sift_down st n ts idx = Inr ts'"
      using idx r by (simp add: sift_down_unfold b_def)
    have ord: "ord_except st n ts' E"
      if side: "idx = 0 \<or> (idx - 1) div heap_d \<in> E" "\<forall>e\<in>E. e < idx"
        and pre: "ord_except st n ts (insert idx E)" for E
    proof -
      have "sift_ord_inv st n idx E (heap_d * idx + 1) ts"
        using pre unfolding sift_ord_inv_def by auto
      then have inv: "sift_ord_inv st n idx E b ts'" using oi side by blast
      show ?thesis unfolding ord_except_def
      proof (intro allI impI)
        fix i assume i: "0 < i \<and> int i < n \<and> (i - 1) div heap_d \<notin> E"
        show "key st ts' ((i - 1) div heap_d) \<le> key st ts' i"
        proof (cases "(i - 1) div heap_d = idx")
          case False
          then show ?thesis using inv i unfolding sift_ord_inv_def ord_except_def by auto
        next
          case True
          have "heap_d * idx + 1 \<le> i" "i < b"
            using child_range [of i idx n] i True nle unfolding b_def by auto
          then show ?thesis using inv i True unfolding sift_ord_inv_def by auto
        qed
      qed
    qed
    have lb: "m \<le> key st ts' idx"
      if "m \<le> key st ts idx"
        "\<forall>c. 0 < c \<and> int c < n \<and> (c - 1) div heap_d = idx \<longrightarrow> m \<le> key st ts c" for m
    proof -
      have "sift_lb_inv st n idx m (heap_d * idx + 1) ts"
        using that unfolding sift_lb_inv_def by auto
      then show ?thesis using li unfolding sift_lb_inv_def by blast
    qed
    have "sift_down_post st n idx ts ts'"
      unfolding sift_down_post_def using sh fr ord lb by blast
    then show ?thesis using res by blast
  qed
qed

lemma par_less: "0 < i \<Longrightarrow> (i - 1) div heap_d < i"
  unfolding heap_d_def by auto

lemma root_le:
  assumes ord: "\<forall>i. 0 < i \<and> int i < n \<and> i \<noteq> idx \<longrightarrow> key st ts ((i - 1) div heap_d) \<le> key st ts i"
  shows "j < idx \<Longrightarrow> int j < n \<Longrightarrow> key st ts 0 \<le> key st ts j"
proof (induction j rule: less_induct)
  case (less j)
  show ?case
  proof (cases "j = 0")
    case True
    then show ?thesis by simp
  next
    case False
    then have pj: "(j - 1) div heap_d < j" unfolding heap_d_def by auto
    have "key st ts 0 \<le> key st ts ((j - 1) div heap_d)"
      using less.IH [OF pj] pj less.prems by auto
    moreover have "key st ts ((j - 1) div heap_d) \<le> key st ts j"
      using ord False less.prems by auto
    ultimately show ?thesis by simp
  qed
qed

lemma sift_up_correct:
  "shape n ts \<Longrightarrow> int idx < n \<Longrightarrow>
   \<exists>ts'. sift_up st ts idx = Inr ts' \<and> shape n ts' \<and> set ts' = set ts \<and>
     ((\<forall>i. 0 < i \<and> int i < n \<and> i \<noteq> idx \<longrightarrow> key st ts ((i - 1) div heap_d) \<le> key st ts i) \<and>
      (\<forall>c. 0 < idx \<and> 0 < c \<and> int c < n \<and> (c - 1) div heap_d = idx \<longrightarrow>
           key st ts ((idx - 1) div heap_d) \<le> key st ts c) \<longrightarrow>
      (\<forall>i. 0 < i \<and> int i < n \<longrightarrow> key st ts' ((i - 1) div heap_d) \<le> key st ts' i) \<and>
      key st ts' 0 = min (key st ts 0) (key st ts idx))"
proof (induction idx arbitrary: ts rule: less_induct)
  case (less idx)
  note sh = less.prems(1) and idx = less.prems(2)
  have len: "length ts = tasks_per_heap" and nle: "n \<le> int tasks_per_heap"
    using sh by (auto simp: shape_def)
  show ?case
  proof (cases "idx = 0")
    case True
    then show ?thesis using sh by (simp add: sift_up.simps)
  next
    case False
    define p where "p = (idx - 1) div heap_d"
    have p_lt: "p < idx" using False unfolding p_def heap_d_def by auto
    have pn: "int p < n" using p_lt idx by simp
    have idx_len: "idx < length ts" "p < length ts" using idx nle len p_lt by auto
    obtain c where c: "ts ! idx = Some c"
      using sh idx idx_len len by (cases "ts ! idx") (auto simp: shape_def)
    obtain q where q: "ts ! p = Some q"
      using sh pn idx_len len by (cases "ts ! p") (auto simp: shape_def)
    have kc: "key st ts idx = sint (t_prio (st c))" using c by (simp add: key_def)
    have kq: "key st ts p = sint (t_prio (st q))" using q by (simp add: key_def)
    show ?thesis
    proof (cases "t_prio (st c) \<le>s t_prio (st q)")
      case F: False
      have res: "sift_up st ts idx = Inr ts"
        using False c q [unfolded p_def] F idx_len by (subst sift_up.simps) (simp add: Let_def)
      have lt: "key st ts p < key st ts idx" using F kc kq by (simp add: word_sle_eq)
      have "(\<forall>i. 0 < i \<and> int i < n \<longrightarrow> key st ts ((i - 1) div heap_d) \<le> key st ts i) \<and>
            key st ts 0 = min (key st ts 0) (key st ts idx)"
        if ord: "\<forall>i. 0 < i \<and> int i < n \<and> i \<noteq> idx \<longrightarrow> key st ts ((i - 1) div heap_d) \<le> key st ts i"
      proof -
        have "key st ts 0 \<le> key st ts p" using root_le [OF ord p_lt pn] .
        then have "key st ts 0 = min (key st ts 0) (key st ts idx)" using lt by simp
        moreover have "key st ts ((i - 1) div heap_d) \<le> key st ts i" if "0 < i \<and> int i < n" for i
          using ord that lt unfolding p_def by (cases "i = idx") auto
        ultimately show ?thesis by blast
      qed
      then show ?thesis using res sh by blast
    next
      case T: True
      define sw where "sw = ts[p := ts ! idx, idx := ts ! p]"
      have le: "key st ts idx \<le> key st ts p" using T kc kq by (simp add: word_sle_eq)
      have sh_sw: "shape n sw" unfolding sw_def using shape_swap [OF sh pn idx] .
      have ksw: "\<And>i. key st sw i =
          (if i = idx then key st ts p else if i = p then key st ts idx else key st ts i)"
        unfolding sw_def using key_swap [of p idx ts st] p_lt idx_len by simp
      have set_sw: "set sw = set ts"
        unfolding sw_def using idx_len p_lt
        by (metis list_update_id list_update_swap nat_neq_iff set_swap)
      from less.IH [OF p_lt sh_sw pn] obtain ts' where
        r: "sift_up st sw p = Inr ts'" and sh': "shape n ts'" and set': "set ts' = set sw"
        and post: "(\<forall>i. 0 < i \<and> int i < n \<and> i \<noteq> p \<longrightarrow> key st sw ((i - 1) div heap_d) \<le> key st sw i) \<and>
          (\<forall>c. 0 < p \<and> 0 < c \<and> int c < n \<and> (c - 1) div heap_d = p \<longrightarrow>
               key st sw ((p - 1) div heap_d) \<le> key st sw c) \<longrightarrow>
          (\<forall>i. 0 < i \<and> int i < n \<longrightarrow> key st ts' ((i - 1) div heap_d) \<le> key st ts' i) \<and>
          key st ts' 0 = min (key st sw 0) (key st sw p)"
        by blast
      have res: "sift_up st ts idx = Inr ts'"
        using False c q [unfolded p_def] T idx_len r [unfolded sw_def p_def]
        by (subst sift_up.simps) (simp add: Let_def)
      have "(\<forall>i. 0 < i \<and> int i < n \<longrightarrow> key st ts' ((i - 1) div heap_d) \<le> key st ts' i) \<and>
            key st ts' 0 = min (key st ts 0) (key st ts idx)"
        if ord: "\<forall>i. 0 < i \<and> int i < n \<and> i \<noteq> idx \<longrightarrow> key st ts ((i - 1) div heap_d) \<le> key st ts i"
          and gp: "\<forall>c. 0 < idx \<and> 0 < c \<and> int c < n \<and> (c - 1) div heap_d = idx \<longrightarrow>
                       key st ts ((idx - 1) div heap_d) \<le> key st ts c"
      proof -
        have pp: "key st ts ((p - 1) div heap_d) \<le> key st ts p" if "0 < p"
          using ord that pn p_lt by auto
        have a1: "key st sw ((i - 1) div heap_d) \<le> key st sw i"
          if i: "0 < i \<and> int i < n \<and> i \<noteq> p" for i
        proof (cases "i = idx")
          case True
          then show ?thesis using ksw [of idx] ksw [of p] le p_def p_lt by simp
        next
          case ni: False
          have oi: "key st ts ((i - 1) div heap_d) \<le> key st ts i" using ord i ni by simp
          have ki: "key st sw i = key st ts i" using ksw [of i] i ni by simp
          consider "(i - 1) div heap_d = idx" | "(i - 1) div heap_d = p" | "(i - 1) div heap_d \<noteq> idx \<and> (i - 1) div heap_d \<noteq> p"
            by blast
          then show ?thesis
          proof cases
            case 1
            then have "key st ts p \<le> key st ts i" using gp i False p_def by auto
            then show ?thesis using ksw [of idx] 1 ki by simp
          next
            case 2
            then show ?thesis using ksw [of p] oi ki le p_lt by simp
          next
            case 3
            then show ?thesis using ksw [of "(i - 1) div heap_d"] oi ki by simp
          qed
        qed
        have a2: "key st sw ((p - 1) div heap_d) \<le> key st sw c"
          if c: "0 < p \<and> 0 < c \<and> int c < n \<and> (c - 1) div heap_d = p" for c
        proof -
          have ppl: "(p - 1) div heap_d < p" using c par_less [of p] by blast
          then have kpp: "key st sw ((p - 1) div heap_d) = key st ts ((p - 1) div heap_d)"
            using ksw [of "(p - 1) div heap_d"] p_lt by simp
          have pc: "p < c" using c par_less [of c] by auto
          show ?thesis
          proof (cases "c = idx")
            case True
            then show ?thesis using kpp ksw [of idx] pp c by simp
          next
            case False
            then have "key st sw c = key st ts c" using ksw [of c] pc by simp
            moreover have "key st ts p \<le> key st ts c" using ord c False by auto
            ultimately show ?thesis using kpp pp c by simp
          qed
        qed
        from post a1 a2 have o': "\<forall>i. 0 < i \<and> int i < n \<longrightarrow> key st ts' ((i - 1) div heap_d) \<le> key st ts' i"
          and r': "key st ts' 0 = min (key st sw 0) (key st sw p)" by blast+
        have "key st ts 0 \<le> key st ts p" using root_le [OF ord p_lt pn] .
        then have "min (key st sw 0) (key st sw p) = min (key st ts 0) (key st ts idx)"
          using ksw [of 0] ksw [of p] le False p_lt by (cases "p = 0") auto
        then show ?thesis using o' r' by simp
      qed
      then show ?thesis using res sh' set' set_sw by blast
    qed
  qed
qed

lemma sint_inj: "sint (a :: 16 word) = sint b \<Longrightarrow> a = b"
  by (rule signed_word_eqI)

lemma sint_max: "sint INT16_MAX = 32767"
  by (simp add: INT16_MAX_def)

lemma sint_le_max: "sint (a :: 16 word) \<le> 32767"
  using sint_lt [of a] by simp

lemma pick_heap_Inr:
  "pick_heap heaps rns = Inr rn \<Longrightarrow> rn < length heaps \<and> \<not> hp_lock (heaps ! rn)"
  by (induction rns) (auto split: if_splits)

lemma heap_order_iff:
  assumes "shape (hp_ntasks hp) (hp_tasks hp)"
  shows "heap_order st hp \<longleftrightarrow> ord_except st (hp_ntasks hp) (hp_tasks hp) {}"
proof -
  have some: "\<exists>a. hp_tasks hp ! i = Some a" if "int i < hp_ntasks hp" for i
    using assms that by (cases "hp_tasks hp ! i") (auto simp: shape_def)
  have eq: "(case (hp_tasks hp ! ((i - 1) div heap_d), hp_tasks hp ! i) of
          (Some p, Some c) \<Rightarrow> t_prio (st p) \<le>s t_prio (st c)
        | _ \<Rightarrow> False) \<longleftrightarrow> key st (hp_tasks hp) ((i - 1) div heap_d) \<le> key st (hp_tasks hp) i"
    if i: "0 < i" "int i < hp_ntasks hp" for i
  proof -
    have "(i - 1) div heap_d < i" using i par_less by simp
    then have "int ((i - 1) div heap_d) < hp_ntasks hp" using i by simp
    then obtain p c where "hp_tasks hp ! ((i - 1) div heap_d) = Some p" "hp_tasks hp ! i = Some c"
      using some i by blast
    then show ?thesis by (simp add: key_def word_sle_eq)
  qed
  show ?thesis
  proof
    assume h: "heap_order st hp"
    show "ord_except st (hp_ntasks hp) (hp_tasks hp) {}"
      unfolding ord_except_def
    proof (intro allI impI)
      fix i assume i: "0 < i \<and> int i < hp_ntasks hp \<and> (i - 1) div heap_d \<notin> {}"
      then have "i \<in> {1..<nat (hp_ntasks hp)}" by auto
      then show "key st (hp_tasks hp) ((i - 1) div heap_d) \<le> key st (hp_tasks hp) i"
        using h eq [of i] i unfolding heap_order_def by blast
    qed
  next
    assume o: "ord_except st (hp_ntasks hp) (hp_tasks hp) {}"
    show "heap_order st hp" unfolding heap_order_def
    proof
      fix i assume "i \<in> {1..<nat (hp_ntasks hp)}"
      then have i: "0 < i" "int i < hp_ntasks hp" by auto
      then have "key st (hp_tasks hp) ((i - 1) div heap_d) \<le> key st (hp_tasks hp) i"
        using o unfolding ord_except_def by auto
      then show "case (hp_tasks hp ! ((i - 1) div heap_d), hp_tasks hp ! i) of
          (Some p, Some c) \<Rightarrow> t_prio (st p) \<le>s t_prio (st c)
        | _ \<Rightarrow> False" using eq [OF i] by simp
    qed
  qed
qed

lemma key_store_eq:
  assumes "\<forall>a. Some a \<in> set ts \<longrightarrow> t_prio (st' a) = t_prio (st a)"
    and "i < length ts" "ts ! i \<noteq> None"
  shows "key st' ts i = key st ts i"
proof -
  obtain a where a: "ts ! i = Some a" using assms(3) by auto
  then have "Some a \<in> set ts" using assms(2) by (metis nth_mem)
  then show ?thesis using assms(1) a by (simp add: key_def)
qed

lemma ord_except_store_eq:
  assumes eq: "\<forall>a. Some a \<in> set ts \<longrightarrow> t_prio (st' a) = t_prio (st a)" and "shape n ts"
  shows "ord_except st' n ts E = ord_except st n ts E"
proof -
  have k: "key st' ts i = key st ts i" if "int i < n" for i
  proof -
    have "i < length ts" "ts ! i \<noteq> None" using assms(2) that by (auto simp: shape_def)
    then show ?thesis by (rule key_store_eq [OF eq])
  qed
  have "key st' ts ((i - 1) div heap_d) = key st ts ((i - 1) div heap_d)" if "0 < i" "int i < n" for i
    using k [of "(i - 1) div heap_d"] par_less [OF that(1)] that(2) by simp
  then show ?thesis using k unfolding ord_except_def by auto
qed

lemma summary_store_eq:
  assumes eq: "\<forall>a. Some a \<in> set (hp_tasks hp) \<longrightarrow> t_prio (st' a) = t_prio (st a)" and "heap_wf hp"
  shows "summary_ok st' hp = summary_ok st hp"
proof (cases "hp_ntasks hp > 0")
  case False
  then show ?thesis by (simp add: summary_ok_def)
next
  case True
  have sh: "shape (hp_ntasks hp) (hp_tasks hp)" using assms(2) by (rule shape_of_wf)
  then have l: "0 < length (hp_tasks hp)" by (simp add: shape_def tasks_per_heap_def)
  show ?thesis
  proof (cases "hp_tasks hp ! 0")
    case None
    then show ?thesis using True by (simp add: summary_ok_def)
  next
    case (Some a)
    then have "Some a \<in> set (hp_tasks hp)" using l by (metis nth_mem)
    then have "t_prio (st' a) = t_prio (st a)" using eq by simp
    then show ?thesis using True Some by (simp add: summary_ok_def)
  qed
qed

lemma heap_store_eq:
  assumes "\<not> task_in_heap task hp" and "heap_wf hp"
  shows "heap_order (st(task := x)) hp = heap_order st hp"
    "summary_ok (st(task := x)) hp = summary_ok st hp"
proof -
  have eq: "\<forall>a. Some a \<in> set (hp_tasks hp) \<longrightarrow> t_prio ((st(task := x)) a) = t_prio (st a)"
    using assms(1) by (auto simp: task_in_heap_def)
  have sh: "shape (hp_ntasks hp) (hp_tasks hp)" using assms(2) by (rule shape_of_wf)
  have "ord_except (st(task := x)) (hp_ntasks hp) (hp_tasks hp) {} =
        ord_except st (hp_ntasks hp) (hp_tasks hp) {}"
    by (rule ord_except_store_eq [OF eq sh])
  then show "heap_order (st(task := x)) hp = heap_order st hp"
    using heap_order_iff [OF sh] by simp
  show "summary_ok (st(task := x)) hp = summary_ok st hp"
    by (rule summary_store_eq [OF eq assms(2)])
qed

lemma probe_round_Some:
  assumes "probe_round heaps rn1 rn2 = Inr (Some rn)"
  shows "rn < length heaps \<and> \<not> hp_lock (heaps ! rn) \<and> hp_prio (heaps ! rn) \<noteq> INT16_MAX"
proof -
  have r: "\<not> (length heaps \<le> rn1 \<or> length heaps \<le> rn2)"
    using assms by (auto simp: probe_round_def)
  show ?thesis
  proof (cases "hp_prio (heaps ! rn2) <s hp_prio (heaps ! rn1)")
    case True
    then have rn: "rn = rn2" "\<not> hp_lock (heaps ! rn2)"
      using assms r by (auto simp: probe_round_def Let_def split: if_splits)
    have "sint (hp_prio (heaps ! rn2)) < 32767"
      using True sint_le_max [of "hp_prio (heaps ! rn1)"] by (simp add: word_sless_alt)
    then have "hp_prio (heaps ! rn2) \<noteq> INT16_MAX" using sint_max by auto
    then show ?thesis using rn r by simp
  next
    case False
    then have rn: "rn = rn1" "\<not> hp_lock (heaps ! rn1)"
      and ne: "\<not> (hp_prio (heaps ! rn1) = hp_prio (heaps ! rn2) \<and> hp_prio (heaps ! rn1) = INT16_MAX)"
      using assms r by (auto simp: probe_round_def Let_def split: if_splits)
    have "hp_prio (heaps ! rn1) \<noteq> INT16_MAX"
    proof
      assume m: "hp_prio (heaps ! rn1) = INT16_MAX"
      then have "32767 \<le> sint (hp_prio (heaps ! rn2))"
        using False sint_max by (simp add: word_sless_alt)
      then have "sint (hp_prio (heaps ! rn2)) = sint INT16_MAX"
        using sint_le_max [of "hp_prio (heaps ! rn2)"] sint_max by simp
      then have "hp_prio (heaps ! rn2) = INT16_MAX" by (rule sint_inj)
      then show False using ne m by simp
    qed
    then show ?thesis using rn r by simp
  qed
qed

lemma deletemin_probe_Some:
  "deletemin_probe heaps draws = Inr (Some rn) \<Longrightarrow>
   rn < length heaps \<and> \<not> hp_lock (heaps ! rn) \<and> hp_prio (heaps ! rn) \<noteq> INT16_MAX"
proof (induction draws)
  case Nil
  then show ?case by simp
next
  case (Cons d draws)
  obtain rn1 rn2 where d: "d = (rn1, rn2)" by (cases d)
  show ?case
  proof (cases "probe_round heaps rn1 rn2")
    case (Inl f)
    then show ?thesis using Cons.prems d by simp
  next
    case (Inr r)
    show ?thesis
    proof (cases r)
      case None
      then show ?thesis using Cons Inr d by simp
    next
      case (Some x)
      then have "x = rn" using Cons.prems Inr d by simp
      then show ?thesis using probe_round_Some [of heaps rn1 rn2 rn] Inr Some by simp
    qed
  qed
qed

lemma deletemin_probe_total:
  "\<forall>(rn1, rn2)\<in>set draws. rn1 < length heaps \<and> rn2 < length heaps \<Longrightarrow>
   \<exists>r. deletemin_probe heaps draws = Inr r"
proof (induction draws)
  case Nil
  then show ?case by simp
next
  case (Cons d draws)
  obtain rn1 rn2 where d: "d = (rn1, rn2)" by (cases d)
  then have "rn1 < length heaps" "rn2 < length heaps" using Cons.prems by auto
  then have "\<exists>r. probe_round heaps rn1 rn2 = Inr r"
    by (simp add: probe_round_def Let_def)
  then obtain r where r: "probe_round heaps rn1 rn2 = Inr r" by blast
  show ?case using Cons r d by (cases r) auto
qed

lemma insert_locked_core:
  assumes pick: "pick_heap heaps rns = Inr rn"
    and wf: "heap_wf (heaps ! rn)" and notin: "\<not> task_in_heap task (heaps ! rn)"
    and nfull: "hp_ntasks (heaps ! rn) < int tasks_per_heap"
  shows "\<exists>ts2. multiq_insert_locked st heaps rns task priority =
           Inr (0, rn, st(task := (st task)\<lparr>t_prio := priority\<rparr>),
                heaps[rn := (heaps ! rn)\<lparr>hp_tasks := ts2, hp_ntasks := hp_ntasks (heaps ! rn) + 1\<rparr>]) \<and>
         shape (hp_ntasks (heaps ! rn) + 1) ts2 \<and>
         (heap_order st (heaps ! rn) \<longrightarrow>
            ord_except (st(task := (st task)\<lparr>t_prio := priority\<rparr>)) (hp_ntasks (heaps ! rn) + 1) ts2 {} \<and>
            key (st(task := (st task)\<lparr>t_prio := priority\<rparr>)) ts2 0 =
              min (if 0 < hp_ntasks (heaps ! rn) then key st (hp_tasks (heaps ! rn)) 0 else sint priority)
                  (sint priority))"
proof -
  define hp where "hp = heaps ! rn"
  define n where "n = hp_ntasks hp"
  define ts where "ts = hp_tasks hp"
  define st1 where "st1 = st(task := (st task)\<lparr>t_prio := priority\<rparr>)"
  define ts1 where "ts1 = ts[nat n := Some task]"
  have sh: "shape n ts" using wf shape_of_wf unfolding hp_def n_def ts_def by blast
  have n0: "0 \<le> n" and len: "length ts = tasks_per_heap" using sh by (auto simp: shape_def)
  have nlt: "n < int tasks_per_heap" using nfull unfolding hp_def n_def .
  have nn: "nat n < length ts" using n0 nlt len by simp
  have sh1: "shape (n + 1) ts1"
    unfolding shape_def
  proof (intro conjI allI impI)
    show "length ts1 = tasks_per_heap" using len by (simp add: ts1_def)
    show "0 \<le> n + 1" using n0 by simp
    show "n + 1 \<le> int tasks_per_heap" using nlt by simp
    fix i assume i: "i < tasks_per_heap"
    show "(ts1 ! i = None) = (n + 1 \<le> int i)"
    proof (cases "i = nat n")
      case True
      then show ?thesis using nn n0 by (simp add: ts1_def)
    next
      case False
      then have "ts1 ! i = ts ! i" by (simp add: ts1_def)
      moreover have "(ts ! i = None) = (n \<le> int i)" using sh i by (simp add: shape_def)
      ultimately show ?thesis using False n0 by auto
    qed
  qed
  have idx: "int (nat n) < n + 1" using n0 by simp
  from sift_up_correct [OF sh1 idx, of st1] obtain ts2 where
    r: "sift_up st1 ts1 (nat n) = Inr ts2" and sh2: "shape (n + 1) ts2"
    and post: "(\<forall>i. 0 < i \<and> int i < n + 1 \<and> i \<noteq> nat n \<longrightarrow>
                  key st1 ts1 ((i - 1) div heap_d) \<le> key st1 ts1 i) \<and>
      (\<forall>c. 0 < nat n \<and> 0 < c \<and> int c < n + 1 \<and> (c - 1) div heap_d = nat n \<longrightarrow>
           key st1 ts1 ((nat n - 1) div heap_d) \<le> key st1 ts1 c) \<longrightarrow>
      (\<forall>i. 0 < i \<and> int i < n + 1 \<longrightarrow> key st1 ts2 ((i - 1) div heap_d) \<le> key st1 ts2 i) \<and>
      key st1 ts2 0 = min (key st1 ts1 0) (key st1 ts1 (nat n))"
    by blast
  have pk: "rn < length heaps" using pick_heap_Inr [OF pick] by simp
  have res: "multiq_insert_locked st heaps rns task priority =
           Inr (0, rn, st1, heaps[rn := hp\<lparr>hp_tasks := ts2, hp_ntasks := n + 1\<rparr>])"
    using pick nlt n0 nn r
    unfolding multiq_insert_locked_def hp_def [symmetric] Let_def
    by (simp add: n_def [symmetric] ts_def [symmetric] st1_def [symmetric] ts1_def [symmetric] hp_def [symmetric])
  have eq: "\<forall>a. Some a \<in> set ts \<longrightarrow> t_prio (st1 a) = t_prio (st a)"
    using notin unfolding task_in_heap_def hp_def [symmetric] ts_def [symmetric] st1_def by auto
  have k1: "key st1 ts1 i = key st ts i" if "int i < n" for i
  proof -
    have ii: "i < length ts" "ts ! i \<noteq> None" "i \<noteq> nat n" using sh that by (auto simp: shape_def)
    have "key st1 ts i = key st ts i" by (rule key_store_eq [OF eq ii(1) ii(2)])
    moreover have "key st1 ts1 i = key st1 ts i" using ii(3) by (simp add: key_def ts1_def)
    ultimately show ?thesis by simp
  qed
  have kn: "key st1 ts1 (nat n) = sint priority"
    using nn by (simp add: key_def ts1_def st1_def)
  have ord: "ord_except st1 (n + 1) ts2 {} \<and>
       key st1 ts2 0 = min (if 0 < n then key st ts 0 else sint priority) (sint priority)"
    if ho: "heap_order st hp"
  proof -
    have o: "ord_except st n ts {}"
      using ho heap_order_iff [of hp st] sh unfolding n_def ts_def by simp
    have a1: "\<forall>i. 0 < i \<and> int i < n + 1 \<and> i \<noteq> nat n \<longrightarrow>
                  key st1 ts1 ((i - 1) div heap_d) \<le> key st1 ts1 i"
    proof (intro allI impI)
      fix i assume i: "0 < i \<and> int i < n + 1 \<and> i \<noteq> nat n"
      then have il: "int i < n" by auto
      have "(i - 1) div heap_d < i" using i par_less by simp
      then have "int ((i - 1) div heap_d) < n" using il by simp
      then show "key st1 ts1 ((i - 1) div heap_d) \<le> key st1 ts1 i"
        using k1 [of i] k1 [of "(i - 1) div heap_d"] il o i unfolding ord_except_def by auto
    qed
    have a2: "\<forall>c. 0 < nat n \<and> 0 < c \<and> int c < n + 1 \<and> (c - 1) div heap_d = nat n \<longrightarrow>
           key st1 ts1 ((nat n - 1) div heap_d) \<le> key st1 ts1 c"
    proof (intro allI impI)
      fix c assume c: "0 < nat n \<and> 0 < c \<and> int c < n + 1 \<and> (c - 1) div heap_d = nat n"
      then have "nat n < c" using par_less [of c] by simp
      then have False using c by linarith
      then show "key st1 ts1 ((nat n - 1) div heap_d) \<le> key st1 ts1 c" ..
    qed
    from post a1 a2 have o': "\<forall>i. 0 < i \<and> int i < n + 1 \<longrightarrow> key st1 ts2 ((i - 1) div heap_d) \<le> key st1 ts2 i"
      and r': "key st1 ts2 0 = min (key st1 ts1 0) (key st1 ts1 (nat n))" by blast+
    have "key st1 ts1 0 = (if 0 < n then key st ts 0 else sint priority)"
      using k1 [of 0] kn n0 by (cases "0 < n") auto
    then show ?thesis using o' r' kn unfolding ord_except_def by simp
  qed
  show ?thesis
    using res sh2 ord unfolding hp_def n_def ts_def st1_def by blast
qed

lemma deletemin_core:
  assumes probe: "deletemin_probe heaps draws = Inr (Some rn)"
    and wf: "heap_wf (heaps ! rn)" and n1: "1 \<le> hp_ntasks (heaps ! rn)"
  shows "\<exists>ts3 pr task. hp_tasks (heaps ! rn) ! 0 = Some task \<and>
           multiq_deletemin st heaps draws =
             Inr (Some task, heaps[rn := (heaps ! rn)\<lparr>hp_tasks := ts3,
                    hp_ntasks := hp_ntasks (heaps ! rn) - 1, hp_prio := pr\<rparr>]) \<and>
           shape (hp_ntasks (heaps ! rn) - 1) ts3 \<and>
           (0 < hp_ntasks (heaps ! rn) - 1 \<longrightarrow> (\<exists>r. ts3 ! 0 = Some r \<and> pr = t_prio (st r))) \<and>
           (hp_ntasks (heaps ! rn) - 1 \<le> 0 \<longrightarrow> pr = INT16_MAX) \<and>
           (heap_order st (heaps ! rn) \<longrightarrow> ord_except st (hp_ntasks (heaps ! rn) - 1) ts3 {})"
proof -
  define hp where "hp = heaps ! rn"
  define n where "n = hp_ntasks hp"
  define ts where "ts = hp_tasks hp"
  define m where "m = n - 1"
  define ts1 where "ts1 = ts[0 := ts ! nat m]"
  define ts2 where "ts2 = ts1[nat m := None]"
  have sh: "shape n ts" using wf shape_of_wf unfolding hp_def n_def ts_def by blast
  have len: "length ts = tasks_per_heap" and nle: "n \<le> int tasks_per_heap"
    using sh by (auto simp: shape_def)
  have n1': "1 \<le> n" using n1 unfolding hp_def n_def .
  have m0: "0 \<le> m" and mlt: "m < n" and mlen: "nat m < length ts"
    using n1' nle len unfolding m_def by auto
  have len0: "0 < length ts" using len by (simp add: tasks_per_heap_def)
  have mlen2: "\<not> int (length ts) \<le> m" using mlen m0 by simp
  obtain task where task: "ts ! 0 = Some task"
    using sh n1' len0 len by (cases "ts ! 0") (auto simp: shape_def)
  have sh2: "shape m ts2"
    unfolding shape_def
  proof (intro conjI allI impI)
    show "length ts2 = tasks_per_heap" using len by (simp add: ts2_def ts1_def)
    show "0 \<le> m" by (rule m0)
    show "m \<le> int tasks_per_heap" using mlt nle by simp
    fix i assume i: "i < tasks_per_heap"
    have orig: "(ts ! i = None) = (n \<le> int i)" using sh i by (simp add: shape_def)
    have lastsome: "ts ! nat m \<noteq> None"
      using sh mlt m0 mlen len by (auto simp: shape_def)
    show "(ts2 ! i = None) = (m \<le> int i)"
    proof (cases "i = nat m")
      case True
      then show ?thesis using mlen m0 by (simp add: ts2_def ts1_def)
    next
      case False
      then have "ts2 ! i = ts1 ! i" by (simp add: ts2_def)
      then show ?thesis
        using orig lastsome False m0 len0 unfolding ts1_def m_def
        by (cases "i = 0") auto
    qed
  qed
  have k2: "key st ts2 i = key st ts i" if "0 < i" "int i < m" for i
    using that m0 by (simp add: key_def ts2_def ts1_def)
  have pre: "ord_except st m ts2 {0}" if ho: "heap_order st hp"
    unfolding ord_except_def
  proof (intro allI impI)
    fix i assume i: "0 < i \<and> int i < m \<and> (i - 1) div heap_d \<notin> {0}"
    have o: "ord_except st n ts {}"
      using ho heap_order_iff [of hp st] sh unfolding n_def ts_def by simp
    have "(i - 1) div heap_d < i" using i par_less by simp
    then have "key st ts2 ((i - 1) div heap_d) = key st ts ((i - 1) div heap_d)"
      using k2 [of "(i - 1) div heap_d"] i by simp
    moreover have "key st ts ((i - 1) div heap_d) \<le> key st ts i"
      using o i mlt unfolding ord_except_def by auto
    ultimately show "key st ts2 ((i - 1) div heap_d) \<le> key st ts2 i"
      using k2 [of i] i by simp
  qed
  have unf: "multiq_deletemin st heaps draws =
      (if m > 0 then
         (case sift_down st m ts2 0 of
            Inl f \<Rightarrow> Inl f
          | Inr ts3 \<Rightarrow>
              (case ts3 ! 0 of
                 None \<Rightarrow> Inl NullDeref
               | Some r \<Rightarrow>
                   Inr (ts ! 0, heaps[rn := hp\<lparr>hp_tasks := ts3, hp_ntasks := m,
                                             hp_prio := t_prio (st r)\<rparr>])))
       else Inr (ts ! 0, heaps[rn := hp\<lparr>hp_tasks := ts2, hp_ntasks := m,
                                       hp_prio := INT16_MAX\<rparr>]))"
    using probe m0 mlen task len0 mlen2
    unfolding multiq_deletemin_def Let_def ts2_def ts1_def m_def n_def ts_def hp_def
    by simp
  have goal: "\<exists>ts3 pr. multiq_deletemin st heaps draws =
             Inr (Some task, heaps[rn := hp\<lparr>hp_tasks := ts3, hp_ntasks := m, hp_prio := pr\<rparr>]) \<and>
           shape m ts3 \<and> (0 < m \<longrightarrow> (\<exists>r. ts3 ! 0 = Some r \<and> pr = t_prio (st r))) \<and>
           (m \<le> 0 \<longrightarrow> pr = INT16_MAX) \<and> (heap_order st hp \<longrightarrow> ord_except st m ts3 {})"
  proof (cases "0 < m")
    case False
    then have "ord_except st m ts2 {}" unfolding ord_except_def by auto
    then show ?thesis using unf False sh2 task by auto
  next
    case True
    from sift_down_correct [OF sh2, of st 0] obtain ts3 where
      r: "sift_down st m ts2 0 = Inr ts3" and post: "sift_down_post st m 0 ts2 ts3" by blast
    have sh3: "shape m ts3" using post by (simp add: sift_down_post_def)
    then obtain r0 where r0: "ts3 ! 0 = Some r0"
      using True by (cases "ts3 ! 0") (auto simp: shape_def tasks_per_heap_def)
    have "ord_except st m ts3 {}" if "heap_order st hp"
    proof -
      have "(0 = 0 \<or> (0 - 1) div heap_d \<in> {}) \<and> (\<forall>e\<in>{}. e < (0::nat)) \<and>
            ord_except st m ts2 (insert 0 {})"
        using pre [OF that] by simp
      then show ?thesis using post unfolding sift_down_post_def by blast
    qed
    then show ?thesis using unf True r r0 sh3 task by auto
  qed
  show ?thesis
    using goal task unfolding hp_def n_def ts_def m_def by blast
qed

lemma insert_result:
  assumes pick: "pick_heap heaps rns = Inr rn"
    and wf: "heap_wf (heaps ! rn)" and notin: "\<not> task_in_heap task (heaps ! rn)"
  shows "\<exists>rc hp'. multiq_insert st heaps rns task priority =
           Inr (rc, st(task := (st task)\<lparr>t_prio := priority\<rparr>), heaps[rn := hp']) \<and>
         hp_lock hp' = hp_lock (heaps ! rn) \<and> heap_wf hp' \<and>
         (heap_order st (heaps ! rn) \<longrightarrow>
            heap_order (st(task := (st task)\<lparr>t_prio := priority\<rparr>)) hp' \<and>
            (summary_ok st (heaps ! rn) \<longrightarrow>
               summary_ok (st(task := (st task)\<lparr>t_prio := priority\<rparr>)) hp'))"
proof (cases "hp_ntasks (heaps ! rn) < int tasks_per_heap")
  case False
  have rn: "rn < length heaps" using pick_heap_Inr [OF pick] by simp
  have "multiq_insert st heaps rns task priority =
          Inr (- 1, st(task := (st task)\<lparr>t_prio := priority\<rparr>), heaps[rn := heaps ! rn])"
    using pick False by (simp add: multiq_insert_def multiq_insert_locked_def)
  then show ?thesis using wf heap_store_eq [OF notin wf] by blast
next
  case True
  define hp where "hp = heaps ! rn"
  define n where "n = hp_ntasks hp"
  define st1 where "st1 = st(task := (st task)\<lparr>t_prio := priority\<rparr>)"
  have rn: "rn < length heaps" using pick_heap_Inr [OF pick] by simp
  from insert_locked_core [OF pick wf notin True, of st priority] obtain ts2 where
    lk: "multiq_insert_locked st heaps rns task priority =
           Inr (0, rn, st1, heaps[rn := hp\<lparr>hp_tasks := ts2, hp_ntasks := n + 1\<rparr>])"
    and sh2: "shape (n + 1) ts2"
    and post: "heap_order st hp \<longrightarrow> ord_except st1 (n + 1) ts2 {} \<and>
            key st1 ts2 0 = min (if 0 < n then key st (hp_tasks hp) 0 else sint priority) (sint priority)"
    unfolding hp_def n_def st1_def by blast
  define pr where "pr = (if priority <s hp_prio hp then priority else hp_prio hp)"
  define hp' where "hp' = hp\<lparr>hp_tasks := ts2, hp_ntasks := n + 1, hp_prio := pr\<rparr>"
  have t1: "t_prio (st1 task) = priority" by (simp add: st1_def)
  have res: "multiq_insert st heaps rns task priority = Inr (0, st1, heaps[rn := hp'])"
    using lk rn t1
    by (auto simp: multiq_insert_def multiq_insert_publish_def Let_def hp'_def pr_def)
  have wf': "heap_wf hp'" using sh2 wf_of_shape [of hp'] by (simp add: hp'_def)
  have n0: "0 \<le> n" using wf unfolding heap_wf_def hp_def n_def by simp
  have ord: "heap_order st1 hp' \<and> (summary_ok st hp \<longrightarrow> summary_ok st1 hp')"
    if ho: "heap_order st hp"
  proof -
    have o: "ord_except st1 (n + 1) ts2 {}"
      and rt: "key st1 ts2 0 = min (if 0 < n then key st (hp_tasks hp) 0 else sint priority) (sint priority)"
      using post ho by blast+
    have h1: "heap_order st1 hp'"
      using o heap_order_iff [of hp' st1] sh2 by (simp add: hp'_def)
    have "summary_ok st1 hp'" if so: "summary_ok st hp"
    proof -
      obtain r' where r': "ts2 ! 0 = Some r'"
        using sh2 n0 by (cases "ts2 ! 0") (auto simp: shape_def tasks_per_heap_def)
      have old: "(if 0 < n then key st (hp_tasks hp) 0 else sint priority) = 
                 (if 0 < n then sint (hp_prio hp) else sint priority)"
        using so unfolding summary_ok_def n_def [symmetric]
        by (cases "hp_tasks hp ! 0") (auto simp: key_def)
      have emp: "sint (hp_prio hp) = 32767" if "\<not> 0 < n"
        using so that sint_max unfolding summary_ok_def n_def [symmetric] by simp
      have "sint pr = min (sint (hp_prio hp)) (sint priority)"
        unfolding pr_def by (auto simp: word_sless_alt)
      also have "\<dots> = min (if 0 < n then sint (hp_prio hp) else sint priority) (sint priority)"
        using emp sint_le_max [of priority] by auto
      finally have "sint pr = sint (t_prio (st1 r'))"
        using rt old r' by (simp add: key_def)
      then have "pr = t_prio (st1 r')" by (rule sint_inj)
      then show ?thesis using r' n0 by (simp add: summary_ok_def hp'_def)
    qed
    then show ?thesis using h1 by blast
  qed
  have "hp_lock hp' = hp_lock hp" by (simp add: hp'_def)
  then show ?thesis
    using res wf' ord unfolding hp_def st1_def by blast
qed

lemma deletemin_result:
  assumes probe: "deletemin_probe heaps draws = Inr (Some rn)"
    and wf: "heap_wf (heaps ! rn)" and n1: "1 \<le> hp_ntasks (heaps ! rn)"
  shows "\<exists>hp' task. hp_tasks (heaps ! rn) ! 0 = Some task \<and>
           multiq_deletemin st heaps draws = Inr (Some task, heaps[rn := hp']) \<and>
           hp_lock hp' = hp_lock (heaps ! rn) \<and> heap_wf hp' \<and> summary_ok st hp' \<and>
           hp_ntasks hp' = hp_ntasks (heaps ! rn) - 1 \<and>
           hp_tasks hp' ! nat (hp_ntasks hp') = None \<and>
           (heap_order st (heaps ! rn) \<longrightarrow> heap_order st hp')"
proof -
  from deletemin_core [OF probe wf n1, of st] obtain ts3 pr task where
    task: "hp_tasks (heaps ! rn) ! 0 = Some task"
    and res: "multiq_deletemin st heaps draws =
             Inr (Some task, heaps[rn := (heaps ! rn)\<lparr>hp_tasks := ts3,
                    hp_ntasks := hp_ntasks (heaps ! rn) - 1, hp_prio := pr\<rparr>])"
    and sh: "shape (hp_ntasks (heaps ! rn) - 1) ts3"
    and p1: "0 < hp_ntasks (heaps ! rn) - 1 \<longrightarrow> (\<exists>r. ts3 ! 0 = Some r \<and> pr = t_prio (st r))"
    and p2: "hp_ntasks (heaps ! rn) - 1 \<le> 0 \<longrightarrow> pr = INT16_MAX"
    and o: "heap_order st (heaps ! rn) \<longrightarrow> ord_except st (hp_ntasks (heaps ! rn) - 1) ts3 {}"
    by blast
  define hp' where "hp' = (heaps ! rn)\<lparr>hp_tasks := ts3,
                    hp_ntasks := hp_ntasks (heaps ! rn) - 1, hp_prio := pr\<rparr>"
  have wf': "heap_wf hp'" using sh wf_of_shape [of hp'] by (simp add: hp'_def)
  have so: "summary_ok st hp'" using p1 p2 by (auto simp: summary_ok_def hp'_def)
  have "nat (hp_ntasks (heaps ! rn) - 1) < tasks_per_heap"
    using wf n1 unfolding heap_wf_def by auto
  then have nn: "hp_tasks hp' ! nat (hp_ntasks hp') = None"
    using sh n1 unfolding shape_def hp'_def by auto
  have ho: "heap_order st hp'" if "heap_order st (heaps ! rn)"
    using o that heap_order_iff [of hp' st] sh by (simp add: hp'_def)
  have "hp_lock hp' = hp_lock (heaps ! rn)" "hp_ntasks hp' = hp_ntasks (heaps ! rn) - 1"
    by (simp_all add: hp'_def)
  then show ?thesis using task res wf' so nn ho unfolding hp'_def [symmetric] by blast
qed

lemma update_inv:
  assumes "\<forall>hp\<in>set heaps. P hp" and "P hp'"
  shows "\<forall>hp\<in>set (heaps[rn := hp']). P hp"
  using assms set_update_subset_insert [of heaps rn hp'] by auto

text \<open>
  C10. In a state where every heap that is not locked by another thread has a count
  within \<open>[0, tasks_per_heap]\<close>, tasks in the slots below the count and \<^verbatim>\<open>NULL\<close> in the
  others, and a summary equal to the root priority or to \<open>INT16_MAX\<close> when empty,
  \<^verbatim>\<open>multiq_deletemin\<close> faults on no draws within the heap array: either it commits to no
  heap and returns \<^verbatim>\<open>NULL\<close> with the heaps unchanged, or it commits to a heap \<open>rn\<close> that
  holds at least one task and returns the task in slot 0; only heap \<open>rn\<close> changes, its
  count is one less and not negative, and the slot at the new count is \<^verbatim>\<open>NULL\<close>.
\<close>

theorem multiq_deletemin_safe:
  assumes inv: "\<forall>hp\<in>set heaps. \<not> hp_lock hp \<longrightarrow> heap_wf hp \<and> summary_ok st hp"
    and dr: "\<forall>(rn1, rn2)\<in>set draws. rn1 < length heaps \<and> rn2 < length heaps"
  shows "(deletemin_probe heaps draws = Inr None \<and>
          multiq_deletemin st heaps draws = Inr (None, heaps)) \<or>
         (\<exists>rn task hp'. deletemin_probe heaps draws = Inr (Some rn) \<and> rn < length heaps \<and>
            1 \<le> hp_ntasks (heaps ! rn) \<and> hp_tasks (heaps ! rn) ! 0 = Some task \<and>
            multiq_deletemin st heaps draws = Inr (Some task, heaps[rn := hp']) \<and>
            hp_ntasks hp' = hp_ntasks (heaps ! rn) - 1 \<and> 0 \<le> hp_ntasks hp' \<and>
            hp_tasks hp' ! nat (hp_ntasks hp') = None \<and> heap_wf hp')"
proof -
  from deletemin_probe_total [OF dr] obtain r where r: "deletemin_probe heaps draws = Inr r"
    by blast
  show ?thesis
  proof (cases r)
    case None
    then show ?thesis using r by (simp add: multiq_deletemin_def)
  next
    case (Some rn)
    then have probe: "deletemin_probe heaps draws = Inr (Some rn)" using r by simp
    from deletemin_probe_Some [OF probe] have rn: "rn < length heaps"
      and ul: "\<not> hp_lock (heaps ! rn)" and ne: "hp_prio (heaps ! rn) \<noteq> INT16_MAX" by auto
    have "heaps ! rn \<in> set heaps" using rn by simp
    then have wf: "heap_wf (heaps ! rn)" and so: "summary_ok st (heaps ! rn)"
      using inv ul by auto
    have n1: "1 \<le> hp_ntasks (heaps ! rn)"
      using so ne unfolding summary_ok_def by (cases "0 < hp_ntasks (heaps ! rn)") auto
    from deletemin_result [OF probe wf n1, of st] obtain hp' task where
      "hp_tasks (heaps ! rn) ! 0 = Some task"
      "multiq_deletemin st heaps draws = Inr (Some task, heaps[rn := hp'])"
      "heap_wf hp'" "hp_ntasks hp' = hp_ntasks (heaps ! rn) - 1"
      "hp_tasks hp' ! nat (hp_ntasks hp') = None"
      by blast
    then show ?thesis using probe rn n1 by auto
  qed
qed

lemma insert_preserves:
  assumes inv: "\<forall>hp\<in>set heaps. \<not> hp_lock hp \<longrightarrow>
                  heap_wf hp \<and> heap_order st hp \<and> \<not> task_in_heap task hp \<and> (Ps \<longrightarrow> summary_ok st hp)"
    and res: "multiq_insert st heaps rns task priority = Inr (rc, st', heaps1)"
  shows "\<forall>hp\<in>set heaps1. \<not> hp_lock hp \<longrightarrow>
           heap_wf hp \<and> heap_order st' hp \<and> (Ps \<longrightarrow> summary_ok st' hp)"
proof -
  obtain rn where pick: "pick_heap heaps rns = Inr rn"
    using res by (cases "pick_heap heaps rns")
      (auto simp: multiq_insert_def multiq_insert_locked_def)
  from pick_heap_Inr [OF pick] have rn: "rn < length heaps" and ul: "\<not> hp_lock (heaps ! rn)"
    by auto
  have mem: "heaps ! rn \<in> set heaps" using rn by simp
  then have wf: "heap_wf (heaps ! rn)" and ho: "heap_order st (heaps ! rn)"
    and ni: "\<not> task_in_heap task (heaps ! rn)" and so: "Ps \<longrightarrow> summary_ok st (heaps ! rn)"
    using inv ul by auto
  define st1 where "st1 = st(task := (st task)\<lparr>t_prio := priority\<rparr>)"
  from insert_result [OF pick wf ni, of st priority] obtain rc' hp' where
    r: "multiq_insert st heaps rns task priority = Inr (rc', st1, heaps[rn := hp'])"
    and lk: "hp_lock hp' = hp_lock (heaps ! rn)" and wf': "heap_wf hp'"
    and post: "heap_order st (heaps ! rn) \<longrightarrow> heap_order st1 hp' \<and>
            (summary_ok st (heaps ! rn) \<longrightarrow> summary_ok st1 hp')"
    unfolding st1_def by blast
  have eq: "st' = st1" "heaps1 = heaps[rn := hp']" using res r by auto
  have old: "\<forall>hp\<in>set heaps. \<not> hp_lock hp \<longrightarrow>
           heap_wf hp \<and> heap_order st1 hp \<and> (Ps \<longrightarrow> summary_ok st1 hp)"
  proof (intro ballI impI)
    fix hp assume hp: "hp \<in> set heaps" "\<not> hp_lock hp"
    then have w: "heap_wf hp" and n: "\<not> task_in_heap task hp" and o: "heap_order st hp"
      and s: "Ps \<longrightarrow> summary_ok st hp" using inv by auto
    show "heap_wf hp \<and> heap_order st1 hp \<and> (Ps \<longrightarrow> summary_ok st1 hp)"
      using heap_store_eq [OF n w, of st] w o s unfolding st1_def by simp
  qed
  have new: "\<not> hp_lock hp' \<longrightarrow> heap_wf hp' \<and> heap_order st1 hp' \<and> (Ps \<longrightarrow> summary_ok st1 hp')"
    using wf' post ho so by blast
  show ?thesis unfolding eq by (rule update_inv [OF old new])
qed

lemma deletemin_preserves:
  assumes inv: "\<forall>hp\<in>set heaps. \<not> hp_lock hp \<longrightarrow>
                  heap_wf hp \<and> (Po \<longrightarrow> heap_order st hp) \<and> (Ps \<longrightarrow> summary_ok st hp)"
    and res: "multiq_deletemin st heaps draws = Inr (r, heaps2)"
  shows "\<forall>hp\<in>set heaps2. \<not> hp_lock hp \<longrightarrow>
           heap_wf hp \<and> (Po \<longrightarrow> heap_order st hp) \<and> (Ps \<longrightarrow> summary_ok st hp)"
proof (cases "deletemin_probe heaps draws")
  case (Inl f)
  then show ?thesis using res by (simp add: multiq_deletemin_def)
next
  case (Inr p)
  show ?thesis
  proof (cases p)
    case None
    then have "heaps2 = heaps" using res Inr by (simp add: multiq_deletemin_def)
    then show ?thesis using inv by simp
  next
    case (Some rn)
    then have probe: "deletemin_probe heaps draws = Inr (Some rn)" using Inr by simp
    from deletemin_probe_Some [OF probe] have rn: "rn < length heaps"
      and ul: "\<not> hp_lock (heaps ! rn)" by auto
    have "heaps ! rn \<in> set heaps" using rn by simp
    then have wf: "heap_wf (heaps ! rn)" and ho: "Po \<longrightarrow> heap_order st (heaps ! rn)"
      using inv ul by auto
    have n1: "1 \<le> hp_ntasks (heaps ! rn)"
    proof (rule ccontr)
      assume "\<not> 1 \<le> hp_ntasks (heaps ! rn)"
      then have "multiq_deletemin st heaps draws = Inl OutOfBounds"
        using probe by (simp add: multiq_deletemin_def Let_def)
      then show False using res by simp
    qed
    from deletemin_result [OF probe wf n1, of st] obtain hp' task where
      r': "multiq_deletemin st heaps draws = Inr (Some task, heaps[rn := hp'])"
      and lk: "hp_lock hp' = hp_lock (heaps ! rn)" and wf': "heap_wf hp'"
      and so': "summary_ok st hp'"
      and ho': "heap_order st (heaps ! rn) \<longrightarrow> heap_order st hp'"
      by blast
    have eq: "heaps2 = heaps[rn := hp']" using res r' by simp
    have new: "\<not> hp_lock hp' \<longrightarrow> heap_wf hp' \<and> (Po \<longrightarrow> heap_order st hp') \<and> (Ps \<longrightarrow> summary_ok st hp')"
      using wf' so' ho' ho by blast
    show ?thesis unfolding eq by (rule update_inv [OF inv new])
  qed
qed

text \<open>
  C5, as stated, fails. \<^verbatim>\<open>multiq_insert\<close> begins with \<^verbatim>\<open>task->prio = priority\<close>, whether
  or not the task is already queued. The heap holds task 0 of priority 3 at the root and
  task 1 of priority 5 below it, and is in heap order. Inserting task 0 again, with
  priority 9, returns 0; the root is still task 0, whose priority is now 9, above task 1
  of priority 5: the heap is out of order.
\<close>

theorem insert_queued_task_breaks_order:
  "heap_wf two_heap \<and> heap_order prio35_store two_heap \<and> summary_ok prio35_store two_heap \<and>
   \<not> hp_lock two_heap \<and> task_in_heap 0 two_heap \<and>
   (case multiq_insert prio35_store [two_heap] [0] 0 9 of
      Inl f \<Rightarrow> False
    | Inr (rc, st', heaps1) \<Rightarrow>
        rc = 0 \<and> length heaps1 = 1 \<and> \<not> hp_lock (heaps1 ! 0) \<and>
        hp_ntasks (heaps1 ! 0) = 3 \<and>
        hp_tasks (heaps1 ! 0) ! 0 = Some 0 \<and> t_prio (st' 0) = 9 \<and>
        hp_tasks (heaps1 ! 0) ! 1 = Some 1 \<and> t_prio (st' 1) = 5 \<and>
        hp_tasks (heaps1 ! 0) ! 2 = Some 0 \<and>
        \<not> heap_order st' (heaps1 ! 0))"
  by code_simp

text \<open>
  C5, amended. The heap order with \<open>d = 8\<close> is preserved by \<^verbatim>\<open>multiq_insert\<close> of a task
  that is not yet in any heap, and by \<^verbatim>\<open>multiq_deletemin\<close>: if every heap that is not
  locked by another thread is well formed and in heap order, then so is every such heap
  after an insertion that completes, for a task that lies in none of them (the data
  model's rule that a task is in at most one heap), and after a deletion that completes.
\<close>

theorem heap_order_preserved:
  assumes inv: "\<forall>hp\<in>set heaps. \<not> hp_lock hp \<longrightarrow> heap_wf hp \<and> heap_order st hp"
  shows "(multiq_insert st heaps rns task priority = Inr (rc, st', heaps1) \<and>
          (\<forall>hp\<in>set heaps. \<not> hp_lock hp \<longrightarrow> \<not> task_in_heap task hp) \<longrightarrow>
          (\<forall>hp\<in>set heaps1. \<not> hp_lock hp \<longrightarrow> heap_wf hp \<and> heap_order st' hp)) \<and>
         (multiq_deletemin st heaps draws = Inr (r, heaps2) \<longrightarrow>
          (\<forall>hp\<in>set heaps2. \<not> hp_lock hp \<longrightarrow> heap_wf hp \<and> heap_order st hp))"
proof (intro conjI impI)
  assume a: "multiq_insert st heaps rns task priority = Inr (rc, st', heaps1) \<and>
          (\<forall>hp\<in>set heaps. \<not> hp_lock hp \<longrightarrow> \<not> task_in_heap task hp)"
  then have "\<forall>hp\<in>set heaps. \<not> hp_lock hp \<longrightarrow>
                  heap_wf hp \<and> heap_order st hp \<and> \<not> task_in_heap task hp \<and> (False \<longrightarrow> summary_ok st hp)"
    using inv by auto
  from insert_preserves [OF this] a
  show "\<forall>hp\<in>set heaps1. \<not> hp_lock hp \<longrightarrow> heap_wf hp \<and> heap_order st' hp" by blast
next
  assume a: "multiq_deletemin st heaps draws = Inr (r, heaps2)"
  have "\<forall>hp\<in>set heaps. \<not> hp_lock hp \<longrightarrow>
                  heap_wf hp \<and> (True \<longrightarrow> heap_order st hp) \<and> (False \<longrightarrow> summary_ok st hp)"
    using inv by auto
  from deletemin_preserves [OF this a]
  show "\<forall>hp\<in>set heaps2. \<not> hp_lock hp \<longrightarrow> heap_wf hp \<and> heap_order st hp" by blast
qed

text \<open>
  Run one at a time, the operations keep the summary right: from a state in which every
  heap that is not locked is well formed, in heap order and has a right summary, the
  summary of every such heap is right again after a completed \<^verbatim>\<open>multiq_insert\<close> of a task
  that lies in no heap and after a completed \<^verbatim>\<open>multiq_deletemin\<close>.
\<close>

theorem summary_preserved_sequential:
  assumes inv: "\<forall>hp\<in>set heaps. \<not> hp_lock hp \<longrightarrow>
                  heap_wf hp \<and> heap_order st hp \<and> summary_ok st hp"
  shows "(multiq_insert st heaps rns task priority = Inr (rc, st', heaps1) \<and>
          (\<forall>hp\<in>set heaps. \<not> hp_lock hp \<longrightarrow> \<not> task_in_heap task hp) \<longrightarrow>
          (\<forall>hp\<in>set heaps1. \<not> hp_lock hp \<longrightarrow> summary_ok st' hp)) \<and>
         (multiq_deletemin st heaps draws = Inr (r, heaps2) \<longrightarrow>
          (\<forall>hp\<in>set heaps2. \<not> hp_lock hp \<longrightarrow> summary_ok st hp))"
proof (intro conjI impI)
  assume a: "multiq_insert st heaps rns task priority = Inr (rc, st', heaps1) \<and>
          (\<forall>hp\<in>set heaps. \<not> hp_lock hp \<longrightarrow> \<not> task_in_heap task hp)"
  then have "\<forall>hp\<in>set heaps. \<not> hp_lock hp \<longrightarrow>
                  heap_wf hp \<and> heap_order st hp \<and> \<not> task_in_heap task hp \<and> (True \<longrightarrow> summary_ok st hp)"
    using inv by auto
  from insert_preserves [OF this] a
  show "\<forall>hp\<in>set heaps1. \<not> hp_lock hp \<longrightarrow> summary_ok st' hp" by blast
next
  assume a: "multiq_deletemin st heaps draws = Inr (r, heaps2)"
  have "\<forall>hp\<in>set heaps. \<not> hp_lock hp \<longrightarrow>
                  heap_wf hp \<and> (False \<longrightarrow> heap_order st hp) \<and> (True \<longrightarrow> summary_ok st hp)"
    using inv by auto
  from deletemin_preserves [OF this a]
  show "\<forall>hp\<in>set heaps2. \<not> hp_lock hp \<longrightarrow> summary_ok st hp" by blast
qed

text \<open>
  C4 (the code departs from the claim). \<^verbatim>\<open>multiq_deletemin\<close> stores the summary before
  it releases the lock, and commits to a heap on the strength of the summary alone;
  \<^verbatim>\<open>multiq_insert\<close> releases the lock first and updates the summary afterwards. Worker A
  inserts task 0 with priority 3 into a heap that holds task 1 of priority 5 and unlocks;
  worker B runs \<^verbatim>\<open>multiq_deletemin\<close>, takes task 0 and publishes 5. If A's load and
  compare-and-swap come now, the heap holds task 1 of priority 5 under the summary 3. If
  a second \<^verbatim>\<open>multiq_deletemin\<close> comes first, it takes task 1 and publishes \<open>INT16_MAX\<close>, and
  A then writes 3 over it: all operations are complete, the heap is empty and its
  summary is 3, and the next \<^verbatim>\<open>multiq_deletemin\<close> commits to it and reads
  \<^verbatim>\<open>tasks[-1]\<close>.
\<close>

theorem summary_race_faults:
  "heap_wf one_heap \<and> summary_ok prio5_store one_heap \<and>
   (case multiq_insert_locked prio5_store [one_heap] [0] 0 3 of
      Inl f \<Rightarrow> False
    | Inr (rc, rn, st1, heaps1) \<Rightarrow>
        rc = 0 \<and>
        (case multiq_deletemin st1 heaps1 [(0, 0)] of
           Inl f \<Rightarrow> False
         | Inr (r, heaps2) \<Rightarrow>
             r = Some 0 \<and> heap_wf (heaps2 ! 0) \<and> summary_ok st1 (heaps2 ! 0) \<and>
             hp_ntasks (multiq_insert_publish st1 heaps2 rn 0 ! 0) = 1 \<and>
             hp_tasks (multiq_insert_publish st1 heaps2 rn 0 ! 0) ! 0 = Some 1 \<and>
             t_prio (st1 1) = 5 \<and>
             hp_prio (multiq_insert_publish st1 heaps2 rn 0 ! 0) = 3 \<and>
             \<not> summary_ok st1 (multiq_insert_publish st1 heaps2 rn 0 ! 0) \<and>
             (case multiq_deletemin st1 heaps2 [(0, 0)] of
                Inl f \<Rightarrow> False
              | Inr (r', heaps3) \<Rightarrow>
                  r' = Some 1 \<and> heap_wf (heaps3 ! 0) \<and> summary_ok st1 (heaps3 ! 0) \<and>
                  hp_ntasks (multiq_insert_publish st1 heaps3 rn 0 ! 0) = 0 \<and>
                  hp_prio (multiq_insert_publish st1 heaps3 rn 0 ! 0) = 3 \<and>
                  \<not> summary_ok st1 (multiq_insert_publish st1 heaps3 rn 0 ! 0) \<and>
                  multiq_deletemin st1 (multiq_insert_publish st1 heaps3 rn 0) [(0, 0)]
                    = Inl OutOfBounds)))"
  by code_simp

text \<open>The heap the race starts from is in heap order, and task 0 is not in it.\<close>

lemma one_heap_in_order: "heap_order prio5_store one_heap \<and> \<not> task_in_heap 0 one_heap"
  by code_simp

theorem multiq_deletemin_safe_witness:
  "heap_wf two_heap \<and> summary_ok prio35_store two_heap \<and>
   deletemin_probe [two_heap] [(0, 0)] = Inr (Some 0) \<and>
   (case multiq_deletemin prio35_store [two_heap] [(0, 0)] of
      Inr (Some task, heaps') \<Rightarrow>
        task = 0 \<and> hp_ntasks (heaps' ! 0) = 1 \<and> hp_tasks (heaps' ! 0) ! 1 = None \<and>
        hp_tasks (heaps' ! 0) ! 0 = Some 1 \<and> heap_wf (heaps' ! 0)
    | _ \<Rightarrow> False)"
proof -
  have h: "heap_wf two_heap" "summary_ok prio35_store two_heap" by code_simp+
  have p: "deletemin_probe [two_heap] [(0, 0)] = Inr (Some 0)" by code_simp
  have e: "case multiq_deletemin prio35_store [two_heap] [(0, 0)] of
      Inr (Some task, heaps') \<Rightarrow>
        task = 0 \<and> hp_ntasks (heaps' ! 0) = 1 \<and> hp_tasks (heaps' ! 0) ! 1 = None \<and>
        hp_tasks (heaps' ! 0) ! 0 = Some 1 \<and> length heaps' = 1
    | _ \<Rightarrow> False" by code_simp
  have inv: "\<forall>hp\<in>set [two_heap]. \<not> hp_lock hp \<longrightarrow> heap_wf hp \<and> summary_ok prio35_store hp"
    using h by simp
  have dr: "\<forall>(rn1, rn2)\<in>set [(0, 0)]. rn1 < length [two_heap] \<and> rn2 < length [two_heap]"
    by simp
  from multiq_deletemin_safe [OF inv dr] p obtain task hp' where
    r: "multiq_deletemin prio35_store [two_heap] [(0, 0)] = Inr (Some task, [two_heap][0 := hp'])"
    and w: "heap_wf hp'" by auto
  show ?thesis using h p e r w by simp
qed

theorem heap_order_preserved_witness:
  "heap_wf one_heap \<and> heap_order prio5_store one_heap \<and> \<not> task_in_heap 0 one_heap \<and>
   heap_wf two_heap \<and> heap_order prio35_store two_heap \<and>
   (case multiq_insert prio5_store [one_heap] [0] 0 3 of
      Inl f \<Rightarrow> False
    | Inr (rc, st', heaps1) \<Rightarrow>
        rc = 0 \<and> hp_ntasks (heaps1 ! 0) = 2 \<and> hp_tasks (heaps1 ! 0) ! 0 = Some 0 \<and>
        heap_wf (heaps1 ! 0) \<and> heap_order st' (heaps1 ! 0)) \<and>
   (case multiq_deletemin prio35_store [two_heap] [(0, 0)] of
      Inl f \<Rightarrow> False
    | Inr (r, heaps2) \<Rightarrow>
        r = Some 0 \<and> hp_ntasks (heaps2 ! 0) = 1 \<and> heap_wf (heaps2 ! 0) \<and>
        heap_order prio35_store (heaps2 ! 0))"
proof -
  have h1: "heap_wf one_heap" "heap_order prio5_store one_heap" "\<not> task_in_heap 0 one_heap"
    "\<not> hp_lock one_heap" by code_simp+
  have h2: "heap_wf two_heap" "heap_order prio35_store two_heap" "\<not> hp_lock two_heap"
    by code_simp+
  have e1: "case multiq_insert prio5_store [one_heap] [0] 0 3 of
      Inl f \<Rightarrow> False
    | Inr (rc, st', heaps1) \<Rightarrow>
        rc = 0 \<and> hp_ntasks (heaps1 ! 0) = 2 \<and> hp_tasks (heaps1 ! 0) ! 0 = Some 0 \<and>
        length heaps1 = 1 \<and> \<not> hp_lock (heaps1 ! 0)" by code_simp
  then obtain rc st' heaps1 where
    r1: "multiq_insert prio5_store [one_heap] [0] 0 3 = Inr (rc, st', heaps1)"
    and f1: "rc = 0" "hp_ntasks (heaps1 ! 0) = 2" "hp_tasks (heaps1 ! 0) ! 0 = Some 0"
      "length heaps1 = 1" "\<not> hp_lock (heaps1 ! 0)"
    by (auto split: sum.splits)
  have e2: "case multiq_deletemin prio35_store [two_heap] [(0, 0)] of
      Inl f \<Rightarrow> False
    | Inr (r, heaps2) \<Rightarrow>
        r = Some 0 \<and> hp_ntasks (heaps2 ! 0) = 1 \<and> length heaps2 = 1 \<and> \<not> hp_lock (heaps2 ! 0)"
    by code_simp
  then obtain r heaps2 where
    r2: "multiq_deletemin prio35_store [two_heap] [(0, 0)] = Inr (r, heaps2)"
    and f2: "r = Some 0" "hp_ntasks (heaps2 ! 0) = 1" "length heaps2 = 1" "\<not> hp_lock (heaps2 ! 0)"
    by (auto split: sum.splits)
  have inv1: "\<forall>hp\<in>set [one_heap]. \<not> hp_lock hp \<longrightarrow> heap_wf hp \<and> heap_order prio5_store hp"
    using h1 by simp
  have inv2: "\<forall>hp\<in>set [two_heap]. \<not> hp_lock hp \<longrightarrow> heap_wf hp \<and> heap_order prio35_store hp"
    using h2 by simp
  have ni: "\<forall>hp\<in>set [one_heap]. \<not> hp_lock hp \<longrightarrow> \<not> task_in_heap 0 hp" using h1 by simp
  have "\<forall>hp\<in>set heaps1. \<not> hp_lock hp \<longrightarrow> heap_wf hp \<and> heap_order st' hp"
    using heap_order_preserved [OF inv1, of "[0]" 0 3 rc st' heaps1] r1 ni by blast
  moreover have "heaps1 ! 0 \<in> set heaps1" using f1 by simp
  ultimately have c1: "heap_wf (heaps1 ! 0) \<and> heap_order st' (heaps1 ! 0)" using f1 by blast
  have "\<forall>hp\<in>set heaps2. \<not> hp_lock hp \<longrightarrow> heap_wf hp \<and> heap_order prio35_store hp"
    using heap_order_preserved [OF inv2, of _ _ _ _ _ _ "[(0, 0)]" r heaps2] r2 by blast
  moreover have "heaps2 ! 0 \<in> set heaps2" using f2 by simp
  ultimately have c2: "heap_wf (heaps2 ! 0) \<and> heap_order prio35_store (heaps2 ! 0)"
    using f2 by blast
  show ?thesis using h1 h2 r1 f1 c1 r2 f2 c2 by simp
qed

theorem summary_preserved_sequential_witness:
  "heap_wf one_heap \<and> heap_order prio5_store one_heap \<and> summary_ok prio5_store one_heap \<and>
   \<not> task_in_heap 0 one_heap \<and>
   heap_wf two_heap \<and> heap_order prio35_store two_heap \<and> summary_ok prio35_store two_heap \<and>
   (case multiq_insert prio5_store [one_heap] [0] 0 3 of
      Inl f \<Rightarrow> False
    | Inr (rc, st', heaps1) \<Rightarrow>
        rc = 0 \<and> hp_ntasks (heaps1 ! 0) = 2 \<and> hp_prio (heaps1 ! 0) = 3 \<and>
        summary_ok st' (heaps1 ! 0)) \<and>
   (case multiq_deletemin prio35_store [two_heap] [(0, 0)] of
      Inl f \<Rightarrow> False
    | Inr (r, heaps2) \<Rightarrow>
        r = Some 0 \<and> hp_ntasks (heaps2 ! 0) = 1 \<and> hp_prio (heaps2 ! 0) = 5 \<and>
        summary_ok prio35_store (heaps2 ! 0))"
proof -
  have h1: "heap_wf one_heap" "heap_order prio5_store one_heap" "\<not> task_in_heap 0 one_heap"
    "\<not> hp_lock one_heap" "summary_ok prio5_store one_heap" by code_simp+
  have h2: "heap_wf two_heap" "heap_order prio35_store two_heap" "\<not> hp_lock two_heap"
    "summary_ok prio35_store two_heap" by code_simp+
  have e1: "case multiq_insert prio5_store [one_heap] [0] 0 3 of
      Inl f \<Rightarrow> False
    | Inr (rc, st', heaps1) \<Rightarrow>
        rc = 0 \<and> hp_ntasks (heaps1 ! 0) = 2 \<and> hp_prio (heaps1 ! 0) = 3 \<and>
        length heaps1 = 1 \<and> \<not> hp_lock (heaps1 ! 0)" by code_simp
  then obtain rc st' heaps1 where
    r1: "multiq_insert prio5_store [one_heap] [0] 0 3 = Inr (rc, st', heaps1)"
    and f1: "rc = 0" "hp_ntasks (heaps1 ! 0) = 2" "hp_prio (heaps1 ! 0) = 3"
      "length heaps1 = 1" "\<not> hp_lock (heaps1 ! 0)"
    by (auto split: sum.splits)
  have e2: "case multiq_deletemin prio35_store [two_heap] [(0, 0)] of
      Inl f \<Rightarrow> False
    | Inr (r, heaps2) \<Rightarrow>
        r = Some 0 \<and> hp_ntasks (heaps2 ! 0) = 1 \<and> hp_prio (heaps2 ! 0) = 5 \<and>
        length heaps2 = 1 \<and> \<not> hp_lock (heaps2 ! 0)"
    by code_simp
  then obtain r heaps2 where
    r2: "multiq_deletemin prio35_store [two_heap] [(0, 0)] = Inr (r, heaps2)"
    and f2: "r = Some 0" "hp_ntasks (heaps2 ! 0) = 1" "hp_prio (heaps2 ! 0) = 5"
      "length heaps2 = 1" "\<not> hp_lock (heaps2 ! 0)"
    by (auto split: sum.splits)
  have inv1: "\<forall>hp\<in>set [one_heap]. \<not> hp_lock hp \<longrightarrow>
      heap_wf hp \<and> heap_order prio5_store hp \<and> summary_ok prio5_store hp"
    using h1 by simp
  have inv2: "\<forall>hp\<in>set [two_heap]. \<not> hp_lock hp \<longrightarrow>
      heap_wf hp \<and> heap_order prio35_store hp \<and> summary_ok prio35_store hp"
    using h2 by simp
  have ni: "\<forall>hp\<in>set [one_heap]. \<not> hp_lock hp \<longrightarrow> \<not> task_in_heap 0 hp" using h1 by simp
  have "\<forall>hp\<in>set heaps1. \<not> hp_lock hp \<longrightarrow> summary_ok st' hp"
    using summary_preserved_sequential [OF inv1, of "[0]" 0 3 rc st' heaps1] r1 ni by blast
  moreover have "heaps1 ! 0 \<in> set heaps1" using f1 by simp
  ultimately have c1: "summary_ok st' (heaps1 ! 0)" using f1 by blast
  have "\<forall>hp\<in>set heaps2. \<not> hp_lock hp \<longrightarrow> summary_ok prio35_store hp"
    using summary_preserved_sequential [OF inv2, of _ _ _ _ _ _ "[(0, 0)]" r heaps2] r2 by blast
  moreover have "heaps2 ! 0 \<in> set heaps2" using f2 by simp
  ultimately have c2: "summary_ok prio35_store (heaps2 ! 0)" using f2 by blast
  show ?thesis using h1 h2 r1 f1 c1 r2 f2 c2 by simp
qed

subsection \<open>Grains arriving concurrently\<close>

lemma count_list_update:
  "i < length xs \<Longrightarrow>
   count_list (xs[i := y]) z =
     count_list xs z + (if y = z then 1 else 0) - (if xs ! i = z then 1 else 0)"
proof (induction xs arbitrary: i)
  case Nil
  then show ?case by simp
next
  case (Cons x xs)
  show ?case
  proof (cases i)
    case 0
    then show ?thesis by simp
  next
    case (Suc j)
    then have j: "j < length xs" using Cons.prems by simp
    have pos: "0 < count_list xs z" if "xs ! j = z"
      using that j count_list_0_iff [of xs z] nth_mem [OF j] by auto
    show ?thesis using Cons.IH [OF j] Suc pos by auto
  qed
qed

lemma count_list_pos: "i < length xs \<Longrightarrow> xs ! i = z \<Longrightarrow> 0 < count_list xs z"
  using count_list_0_iff [of xs z] nth_mem [of i xs] by auto

lemma length_two_counts:
  "\<forall>x\<in>set xs. x = a \<or> x = b \<Longrightarrow> a \<noteq> b \<Longrightarrow> length xs = count_list xs a + count_list xs b"
  by (induction xs) auto

lemma passed_le1:
  assumes inv: "fanout_inv (tree, pcs)"
  shows "c < 2 * length pcs - 1 \<Longrightarrow> passed tree pcs c \<le> 1"
proof (induction "2 * length pcs - c" arbitrary: c rule: less_induct)
  case less
  show ?case
  proof (cases "c < length pcs - 1")
    case False
    then show ?thesis by (simp add: passed_def)
  next
    case True
    have c1: "2 * c + 1 < 2 * length pcs - 1" "2 * c + 2 < 2 * length pcs - 1" using True by auto
    have "passed tree pcs (2 * c + 1) \<le> 1" "passed tree pcs (2 * c + 2) \<le> 1"
      using less.hyps [of "2 * c + 1"] less.hyps [of "2 * c + 2"] c1 by auto
    then have "contrib tree pcs (2 * c + 1) + contrib tree pcs (2 * c + 2) \<le> 2"
      unfolding contrib_def by linarith
    moreover have "unat (tree ! c) = contrib tree pcs (2 * c + 1) + contrib tree pcs (2 * c + 2)"
      using inv True unfolding fanout_inv_def by simp
    ultimately show ?thesis using True by (simp add: passed_def)
  qed
qed

lemma counter_le2:
  assumes inv: "fanout_inv (tree, pcs)" and k: "k < length pcs - 1"
  shows "unat (tree ! k) \<le> 2"
proof -
  have c1: "2 * k + 1 < 2 * length pcs - 1" "2 * k + 2 < 2 * length pcs - 1" using k by auto
  have "passed tree pcs (2 * k + 1) \<le> 1" "passed tree pcs (2 * k + 2) \<le> 1"
    using passed_le1 [OF inv] c1 by auto
  then have "contrib tree pcs (2 * k + 1) + contrib tree pcs (2 * k + 2) \<le> 2"
    unfolding contrib_def by linarith
  then show ?thesis using inv k unfolding fanout_inv_def by simp
qed

lemma unat_succ: "unat (x :: 16 word) \<le> 2 \<Longrightarrow> unat (x + 1) = unat x + 1"
proof -
  assume "unat x \<le> 2"
  then have "unat x + unat (1 :: 16 word) < 2 ^ LENGTH(16)" by simp
  then have "unat (x + 1) = unat x + unat (1 :: 16 word)" by (simp only: unat_add_lem)
  then show ?thesis by simp
qed

lemma tok_update:
  "i < length pcs \<Longrightarrow>
   tok (pcs[i := y]) c =
     tok pcs c + (if y = Loop c then 1 else 0) - (if pcs ! i = Loop c then 1 else 0)"
  unfolding tok_def by (rule count_list_update)

lemma tok_pos: "i < length pcs \<Longrightarrow> pcs ! i = Loop c \<Longrightarrow> 0 < tok pcs c"
  unfolding tok_def by (rule count_list_pos)

lemma passed_update:
  assumes "i < length pcs" "pcs ! i \<noteq> Entry" "y \<noteq> Entry"
  shows "passed tree (pcs[i := y]) c = passed tree pcs c"
  using assms by (auto simp: passed_def nth_list_update)

lemma passed_tree_update:
  assumes "length tree = length pcs - 1" "k < length tree"
  shows "passed (tree[k := v]) pcs c = (if c = k then unat v - 1 else passed tree pcs c)"
  using assms by (auto simp: passed_def nth_list_update)

lemma fanout_invD:
  assumes "fanout_inv (tree, pcs)"
  shows "1 \<le> length pcs" "length tree = length pcs - 1"
    "\<And>k. k < length pcs - 1 \<Longrightarrow>
       unat (tree ! k) = contrib tree pcs (2 * k + 1) + contrib tree pcs (2 * k + 2)"
    "\<And>c. c < 2 * length pcs - 1 \<Longrightarrow> tok pcs c \<le> passed tree pcs c"
    "passed tree pcs 0 = tok pcs 0 + count_list pcs (Done 1)"
    "\<And>c. 2 * length pcs - 1 \<le> c \<Longrightarrow> tok pcs c = 0"
    "Crashed \<notin> set pcs" "\<And>r. Done r \<in> set pcs \<Longrightarrow> r = 0 \<or> r = 1"
  using assms unfolding fanout_inv_def by auto

lemma fanout_invI:
  assumes "1 \<le> length pcs" "length tree = length pcs - 1"
    "\<And>k. k < length pcs - 1 \<Longrightarrow>
       unat (tree ! k) = contrib tree pcs (2 * k + 1) + contrib tree pcs (2 * k + 2)"
    "\<And>c. c < 2 * length pcs - 1 \<Longrightarrow> tok pcs c \<le> passed tree pcs c"
    "passed tree pcs 0 = tok pcs 0 + count_list pcs (Done 1)"
    "\<And>c. 2 * length pcs - 1 \<le> c \<Longrightarrow> tok pcs c = 0"
    "Crashed \<notin> set pcs" "\<And>r. Done r \<in> set pcs \<Longrightarrow> r = 0 \<or> r = 1"
  shows "fanout_inv (tree, pcs)"
  using assms unfolding fanout_inv_def by auto

lemma set_update_cases: "x \<in> set (xs[i := y]) \<Longrightarrow> x = y \<or> x \<in> set xs"
  using set_update_subset_insert [of xs i y] by auto

lemma step_ascend:
  assumes inv: "fanout_inv (tree, pcs)" and i: "i < length pcs"
    and pc: "pcs ! i = Loop a" and a: "0 < a"
  shows "(a - 1) div 2 < length tree"
    and "fanout_inv (tree[(a - 1) div 2 := tree ! ((a - 1) div 2) + 1],
                     pcs[i := if tree ! ((a - 1) div 2) = 0 then Done 0 else Loop ((a - 1) div 2)])"
proof -
  note I = fanout_invD [OF inv]
  define p where "p = (a - 1) div 2"
  define b :: nat where "b = (if tree ! p = 0 then 0 else 1)"
  define pc' where "pc' = (if tree ! p = 0 then Done 0 else Loop p)"
  define tree' where "tree' = tree[p := tree ! p + 1]"
  define pcs' where "pcs' = pcs[i := pc']"
  have tp: "0 < tok pcs a" using tok_pos [OF i pc] .
  have a_lt: "a < 2 * length pcs - 1"
  proof (rule ccontr)
    assume "\<not> a < 2 * length pcs - 1"
    then have "tok pcs a = 0" using I(6) [of a] by simp
    then show False using tp by simp
  qed
  have p_lt: "p < length pcs - 1" using a_lt a unfolding p_def by auto
  then show "(a - 1) div 2 < length tree" using I(2) unfolding p_def by simp
  have p_ne: "p \<noteq> a" using a unfolding p_def by auto
  have le2: "unat (tree ! p) \<le> 2" using counter_le2 [OF inv p_lt] .
  have su: "unat (tree ! p + 1) = unat (tree ! p) + 1" using unat_succ [OF le2] .
  have b0: "unat (tree ! p) = unat (tree ! p) - 1 + b"
    unfolding b_def by (auto simp: unat_eq_zero [symmetric] simp del: unat_eq_zero)
  have len: "length pcs' = length pcs" "length tree' = length pcs' - 1"
    unfolding pcs'_def tree'_def using I(2) by simp_all
  have ne: "pcs ! i \<noteq> Entry" "pc' \<noteq> Entry" using pc unfolding pc'_def by auto
  have P: "passed tree' pcs' c = passed tree pcs c + (if c = p then b else 0)" for c
  proof -
    have "passed tree' pcs' c = passed tree' pcs c"
      unfolding pcs'_def using passed_update [OF i ne] .
    also have "\<dots> = (if c = p then unat (tree ! p + 1) - 1 else passed tree pcs c)"
      unfolding tree'_def using passed_tree_update [OF I(2)] p_lt I(2) by simp
    also have "\<dots> = passed tree pcs c + (if c = p then b else 0)"
      using b0 su p_lt by (auto simp: passed_def)
    finally show ?thesis .
  qed
  have T: "tok pcs' c = tok pcs c + (if c = p then b else 0) - (if c = a then 1 else 0)" for c
    unfolding pcs'_def using tok_update [OF i, of pc' c] pc
    by (auto simp: pc'_def b_def)
  have C: "contrib tree' pcs' c = contrib tree pcs c + (if c = a then 1 else 0)"
    if "c < 2 * length pcs - 1" for c
    using P [of c] T [of c] I(4) [OF that] tp p_ne unfolding contrib_def by auto
  have cnt: "count_list pcs' (Done 1) = count_list pcs (Done 1)"
    unfolding pcs'_def using count_list_update [OF i, of pc' "Done 1"] pc
    by (auto simp: pc'_def)
  have "fanout_inv (tree', pcs')"
  proof (rule fanout_invI)
    show "1 \<le> length pcs'" using I(1) len by simp
    show "length tree' = length pcs' - 1" using len by simp
    show "unat (tree' ! k) = contrib tree' pcs' (2 * k + 1) + contrib tree' pcs' (2 * k + 2)"
      if "k < length pcs' - 1" for k
    proof -
      have k: "k < length pcs - 1" using that len by simp
      have "unat (tree' ! k) = unat (tree ! k) + (if k = p then 1 else 0)"
        unfolding tree'_def using k I(2) su by (auto simp: nth_list_update)
      moreover have "(k = p) = (2 * k + 1 = a \<or> 2 * k + 2 = a)"
        using a unfolding p_def by auto
      moreover have "2 * k + 1 < 2 * length pcs - 1" "2 * k + 2 < 2 * length pcs - 1"
        using k by auto
      ultimately show ?thesis using C [of "2 * k + 1"] C [of "2 * k + 2"] I(3) [OF k] by auto
    qed
    show "tok pcs' c \<le> passed tree' pcs' c" if "c < 2 * length pcs' - 1" for c
      using that len I(4) [of c] P [of c] T [of c] by auto
    show "passed tree' pcs' 0 = tok pcs' 0 + count_list pcs' (Done 1)"
      using P [of 0] T [of 0] I(5) a cnt by auto
    show "tok pcs' c = 0" if "2 * length pcs' - 1 \<le> c" for c
      using that len I(6) [of c] T [of c] p_lt by auto
    show "Crashed \<notin> set pcs'"
      using I(7) set_update_cases [of Crashed pcs i pc'] unfolding pcs'_def pc'_def by auto
    show "r = 0 \<or> r = 1" if "Done r \<in> set pcs'" for r
      using that I(8) [of r] set_update_cases [of "Done r" pcs i pc'] unfolding pcs'_def pc'_def
      by (auto split: if_splits)
  qed
  then show "fanout_inv (tree[(a - 1) div 2 := tree ! ((a - 1) div 2) + 1],
                     pcs[i := if tree ! ((a - 1) div 2) = 0 then Done 0 else Loop ((a - 1) div 2)])"
    unfolding tree'_def pcs'_def pc'_def p_def .
qed

lemma step_entry:
  assumes inv: "fanout_inv (tree, pcs)" and i: "i < length pcs" and pc: "pcs ! i = Entry"
  shows "fanout_inv (tree, pcs[i := Loop (i + length pcs - 1)])"
proof -
  note I = fanout_invD [OF inv]
  define L where "L = i + length pcs - 1"
  define pcs' where "pcs' = pcs[i := Loop L]"
  have L: "length pcs - 1 \<le> L" "L < 2 * length pcs - 1" "L - (length pcs - 1) = i"
    using i I(1) unfolding L_def by auto
  have pL: "passed tree pcs L = 0" using L pc by (simp add: passed_def)
  have tL: "tok pcs L = 0" using I(4) [OF L(2)] pL by simp
  have len: "length pcs' = length pcs" unfolding pcs'_def by simp
  have P: "passed tree pcs' c = passed tree pcs c + (if c = L then 1 else 0)" for c
  proof (cases "c < length pcs - 1")
    case True
    then show ?thesis using L by (auto simp: passed_def len)
  next
    case False
    have "(c - (length pcs - 1) = i) = (c = L)" using False L I(1) unfolding L_def by auto
    then show ?thesis using False pc i
      unfolding passed_def len pcs'_def by (auto simp: nth_list_update)
  qed
  have T: "tok pcs' c = tok pcs c + (if c = L then 1 else 0)" for c
    unfolding pcs'_def using tok_update [OF i, of "Loop L" c] pc by auto
  have C: "contrib tree pcs' c = contrib tree pcs c" for c
    using P [of c] T [of c] pL tL unfolding contrib_def by auto
  have cnt: "count_list pcs' (Done 1) = count_list pcs (Done 1)"
    unfolding pcs'_def using count_list_update [OF i, of "Loop L" "Done 1"] pc by auto
  have "fanout_inv (tree, pcs')"
  proof (rule fanout_invI)
    show "1 \<le> length pcs'" using I(1) len by simp
    show "length tree = length pcs' - 1" using len I(2) by simp
    show "unat (tree ! k) = contrib tree pcs' (2 * k + 1) + contrib tree pcs' (2 * k + 2)"
      if "k < length pcs' - 1" for k
      using that len I(3) [of k] C by simp
    show "tok pcs' c \<le> passed tree pcs' c" if "c < 2 * length pcs' - 1" for c
      using that len I(4) [of c] P [of c] T [of c] by auto
    show "passed tree pcs' 0 = tok pcs' 0 + count_list pcs' (Done 1)"
      using P [of 0] T [of 0] I(5) cnt by auto
    show "tok pcs' c = 0" if "2 * length pcs' - 1 \<le> c" for c
      using that len I(6) [of c] T [of c] L by auto
    show "Crashed \<notin> set pcs'"
      using I(7) set_update_cases [of Crashed pcs i "Loop L"] unfolding pcs'_def by auto
    show "r = 0 \<or> r = 1" if "Done r \<in> set pcs'" for r
      using that I(8) [of r] set_update_cases [of "Done r" pcs i "Loop L"] unfolding pcs'_def
      by auto
  qed
  then show ?thesis unfolding pcs'_def L_def .
qed

lemma step_root:
  assumes inv: "fanout_inv (tree, pcs)" and i: "i < length pcs" and pc: "pcs ! i = Loop 0"
  shows "fanout_inv (tree, pcs[i := Done 1])"
proof -
  note I = fanout_invD [OF inv]
  define pcs' where "pcs' = pcs[i := Done 1]"
  have tp: "0 < tok pcs 0" using tok_pos [OF i pc] .
  have len: "length pcs' = length pcs" unfolding pcs'_def by simp
  have P: "passed tree pcs' c = passed tree pcs c" for c
    unfolding pcs'_def using passed_update [OF i, of "Done 1"] pc by simp
  have T: "tok pcs' c = tok pcs c - (if c = 0 then 1 else 0)" for c
    unfolding pcs'_def using tok_update [OF i, of "Done 1" c] pc by auto
  have C: "contrib tree pcs' c = contrib tree pcs c" if "0 < c" for c
    using P [of c] T [of c] that unfolding contrib_def by auto
  have cnt: "count_list pcs' (Done 1) = count_list pcs (Done 1) + 1"
    unfolding pcs'_def using count_list_update [OF i, of "Done 1" "Done 1"] pc by auto
  have "fanout_inv (tree, pcs')"
  proof (rule fanout_invI)
    show "1 \<le> length pcs'" using I(1) len by simp
    show "length tree = length pcs' - 1" using len I(2) by simp
    show "unat (tree ! k) = contrib tree pcs' (2 * k + 1) + contrib tree pcs' (2 * k + 2)"
      if "k < length pcs' - 1" for k
      using that len I(3) [of k] C by simp
    show "tok pcs' c \<le> passed tree pcs' c" if "c < 2 * length pcs' - 1" for c
      using that len I(4) [of c] P [of c] T [of c] by auto
    show "passed tree pcs' 0 = tok pcs' 0 + count_list pcs' (Done 1)"
      using P [of 0] T [of 0] I(5) cnt tp by auto
    show "tok pcs' c = 0" if "2 * length pcs' - 1 \<le> c" for c
      using that len I(6) [of c] T [of c] by auto
    show "Crashed \<notin> set pcs'"
      using I(7) set_update_cases [of Crashed pcs i "Done 1"] unfolding pcs'_def by auto
    show "r = 0 \<or> r = 1" if "Done r \<in> set pcs'" for r
      using that I(8) [of r] set_update_cases [of "Done r" pcs i "Done 1"] unfolding pcs'_def
      by auto
  qed
  then show ?thesis unfolding pcs'_def .
qed

lemma fanout_step_inv:
  assumes inv: "fanout_inv s"
  shows "fanout_inv (fanout_step s i)"
proof -
  obtain tree pcs where s: "s = (tree, pcs)" by (cases s)
  note inv' = inv [unfolded s]
  show ?thesis
  proof (cases "i < length pcs")
    case False
    then show ?thesis using inv by (simp add: fanout_step_def s)
  next
    case i: True
    show ?thesis
    proof (cases "pcs ! i")
      case Entry
      then show ?thesis using step_entry [OF inv' i Entry] i
        by (simp add: fanout_step_def s grain_step_def)
    next
      case (Loop a)
      show ?thesis
      proof (cases "0 < a")
        case True
        note st = step_ascend [OF inv' i Loop True]
        have "fanout_step s i =
                (tree[(a - 1) div 2 := tree ! ((a - 1) div 2) + 1],
                 pcs[i := if tree ! ((a - 1) div 2) = 0 then Done 0 else Loop ((a - 1) div 2)])"
          using st(1) i Loop True by (simp add: fanout_step_def s grain_step_def Let_def)
        with st(2) show ?thesis by (simp only:)
      next
        case False
        then have "pcs ! i = Loop 0" using Loop by simp
        from step_root [OF inv' i this] show ?thesis using i Loop False
          by (simp add: fanout_step_def s grain_step_def)
      qed
    next
      case (Done r)
      then have "pcs[i := Done r] = pcs" using i by (metis list_update_id)
      then show ?thesis using inv' i Done by (simp add: fanout_step_def s grain_step_def)
    next
      case Crashed
      then have "pcs[i := Crashed] = pcs" using i by (metis list_update_id)
      then show ?thesis using inv' i Crashed by (simp add: fanout_step_def s grain_step_def)
    qed
  qed
qed

lemma fanout_run_inv: "fanout_inv s \<Longrightarrow> fanout_inv (fanout_run sched s)"
  unfolding fanout_run_def
  by (induction sched arbitrary: s) (simp_all add: fanout_step_inv)

lemma fanout_init_inv:
  assumes "1 \<le> G"
  shows "fanout_inv (fanout_init G)"
proof -
  have cl: "count_list (replicate n x) y = (if x = y then n else 0)" for n and x y :: grain_pc
    by (induction n) auto
  have t: "tok (replicate G Entry) c = 0" for c by (simp add: tok_def cl)
  have p: "passed (replicate (G - 1) 0) (replicate G Entry) c = 0" if "c < 2 * G - 1" for c
    using that by (auto simp: passed_def)
  show ?thesis
    unfolding fanout_init_def
  proof (rule fanout_invI)
    show "unat (replicate (G - 1) (0 :: 16 word) ! k) =
          contrib (replicate (G - 1) 0) (replicate G Entry) (2 * k + 1) +
          contrib (replicate (G - 1) 0) (replicate G Entry) (2 * k + 2)"
      if "k < length (replicate G Entry) - 1" for k
      using that p [of "2 * k + 1"] p [of "2 * k + 2"] by (simp add: contrib_def t)
    show "passed (replicate (G - 1) 0) (replicate G Entry) 0 =
          tok (replicate G Entry) 0 + count_list (replicate G Entry) (Done 1)"
      using p [of 0] assms by (simp add: t cl)
  qed (use assms in \<open>simp_all add: t\<close>)
qed

lemma fanout_final:
  assumes inv: "fanout_inv (tree, pcs)" and ret: "all_returned pcs"
  shows "count_list pcs (Done 1) = 1" and "count_list pcs (Done 0) = length pcs - 1"
    and "\<forall>k<length tree. tree ! k = 2"
proof -
  note I = fanout_invD [OF inv]
  have dn: "\<exists>r. x = Done r" if "x \<in> set pcs" for x
    using ret that unfolding all_returned_def list_all_iff by (cases x) auto
  have t: "tok pcs c = 0" for c
    unfolding tok_def using dn [of "Loop c"] by (auto simp: count_list_0_iff)
  have noentry: "pcs ! j \<noteq> Entry" if "j < length pcs" for j
    using dn [of "pcs ! j"] that by auto
  have p1: "c < 2 * length pcs - 1 \<Longrightarrow> passed tree pcs c = 1" for c
  proof (induction "2 * length pcs - c" arbitrary: c rule: less_induct)
    case less
    show ?case
    proof (cases "c < length pcs - 1")
      case False
      then have "c - (length pcs - 1) < length pcs" using less.prems by auto
      then show ?thesis using False noentry by (simp add: passed_def)
    next
      case True
      have c1: "2 * c + 1 < 2 * length pcs - 1" "2 * c + 2 < 2 * length pcs - 1"
        using True by auto
      have "passed tree pcs (2 * c + 1) = 1" "passed tree pcs (2 * c + 2) = 1"
        using less.hyps [of "2 * c + 1"] less.hyps [of "2 * c + 2"] c1 by auto
      then have "unat (tree ! c) = 2" using I(3) [OF True] by (simp add: contrib_def t)
      then show ?thesis using True by (simp add: passed_def)
    qed
  qed
  have "passed tree pcs 0 = 1" using p1 [of 0] I(1) by simp
  then show one: "count_list pcs (Done 1) = 1" using I(5) by (simp add: t)
  have "\<forall>x\<in>set pcs. x = Done 0 \<or> x = Done 1"
    using dn I(8) by blast
  from length_two_counts [OF this] one show "count_list pcs (Done 0) = length pcs - 1" by simp
  show "\<forall>k<length tree. tree ! k = 2"
  proof (intro allI impI)
    fix k assume "k < length tree"
    then have k: "k < length pcs - 1" using I(2) by simp
    have c1: "2 * k + 1 < 2 * length pcs - 1" "2 * k + 2 < 2 * length pcs - 1"
      using k by auto
    have "unat (tree ! k) = 2" using I(3) [OF k] p1 [OF c1(1)] p1 [OF c1(2)]
      by (simp add: contrib_def t)
    then show "tree ! k = 2" by (simp add: word_unat_eq_iff)
  qed
qed

lemma fanout_length: "length (snd (fanout_run sched s)) = length (snd s)"
proof -
  have st: "length (snd (fanout_step s i)) = length (snd s)" for s i
    by (cases s) (auto simp: fanout_step_def split: prod.splits)
  show ?thesis unfolding fanout_run_def
    by (induction sched arbitrary: s) (simp_all add: st)
qed

lemma fanout_step_length: "length (snd (fanout_step s i)) = length (snd s)"
  by (cases s) (auto simp: fanout_step_def split: prod.splits)

lemma grain_step_left:
  assumes "i < G"
  shows "steps_left G (snd (grain_step G tree i pc)) \<le> steps_left G pc - 1"
proof (cases pc)
  case Entry
  then show ?thesis using assms by (simp add: grain_step_def steps_left_def)
next
  case (Loop a)
  have "(a - 1) div 2 + 1 \<le> a" if "0 < a" using that by auto
  then show ?thesis using Loop by (auto simp: grain_step_def steps_left_def Let_def)
next
  case (Done r)
  then show ?thesis by (simp add: grain_step_def steps_left_def)
next
  case Crashed
  then show ?thesis by (simp add: grain_step_def steps_left_def)
qed

lemma fanout_step_left:
  assumes "j < length (snd s)"
  shows "steps_left (length (snd s)) (snd (fanout_step s i) ! j)
           \<le> steps_left (length (snd s)) (snd s ! j) - (if i = j then 1 else 0)"
proof -
  obtain tree pcs where s: "s = (tree, pcs)" by (cases s)
  show ?thesis
  proof (cases "i < length pcs")
    case False
    then show ?thesis using assms by (auto simp: fanout_step_def s)
  next
    case True
    obtain tree' pc' where g: "grain_step (length pcs) tree i (pcs ! i) = (tree', pc')"
      by (cases "grain_step (length pcs) tree i (pcs ! i)")
    have st: "fanout_step s i = (tree', pcs[i := pc'])"
      using True g by (simp add: fanout_step_def s)
    show ?thesis
    proof (cases "i = j")
      case False
      then show ?thesis using st assms by (simp add: s)
    next
      case ij: True
      have "steps_left (length pcs) pc' \<le> steps_left (length pcs) (pcs ! i) - 1"
        using grain_step_left [OF True, of tree "pcs ! i"] g by simp
      then show ?thesis using st True ij by (simp add: s)
    qed
  qed
qed

lemma fanout_run_left:
  "j < length (snd s) \<Longrightarrow>
   steps_left (length (snd s)) (snd (fanout_run sched s) ! j)
     \<le> steps_left (length (snd s)) (snd s ! j) - count_list sched j"
proof (induction sched arbitrary: s)
  case Nil
  then show ?case by (simp add: fanout_run_def)
next
  case (Cons i sched)
  have l: "length (snd (fanout_step s i)) = length (snd s)" by (rule fanout_step_length)
  have r: "fanout_run (i # sched) s = fanout_run sched (fanout_step s i)"
    by (simp add: fanout_run_def)
  have "steps_left (length (snd s)) (snd (fanout_run sched (fanout_step s i)) ! j)
          \<le> steps_left (length (snd s)) (snd (fanout_step s i) ! j) - count_list sched j"
    using Cons.IH [of "fanout_step s i"] Cons.prems l by simp
  moreover note fanout_step_left [OF Cons.prems, of i]
  ultimately show ?case unfolding r by (auto split: if_splits)
qed

lemma fanout_returns:
  assumes G: "1 \<le> G" and run: "fanout_run sched (fanout_init G) = (tree, pcs)"
    and fair: "\<forall>i<G. 2 * G \<le> count_list sched i"
  shows "all_returned pcs"
proof -
  have inv: "fanout_inv (tree, pcs)"
    using fanout_run_inv [OF fanout_init_inv [OF G], of sched] run by simp
  have len: "length pcs = G"
    using fanout_length [of sched "fanout_init G"] run by (simp add: fanout_init_def)
  have "\<exists>r. pcs ! j = Done r" if j: "j < G" for j
  proof -
    have "steps_left G (pcs ! j) \<le> steps_left G Entry - count_list sched j"
      using fanout_run_left [of j "fanout_init G" sched] j run by (simp add: fanout_init_def)
    then have z: "steps_left G (pcs ! j) = 0" using fair j by (simp add: steps_left_def)
    have "pcs ! j \<noteq> Crashed" using fanout_invD(7) [OF inv] j len nth_mem [of j pcs] by metis
    then show ?thesis using z G by (cases "pcs ! j") (auto simp: steps_left_def)
  qed
  then have d: "\<forall>n<length pcs. \<exists>r. pcs ! n = Done r" using len by simp
  show ?thesis
    unfolding all_returned_def list_all_length
  proof (intro allI impI)
    fix n assume "n < length pcs"
    then obtain r where "pcs ! n = Done r" using d by blast
    then show "case pcs ! n of Done r \<Rightarrow> True | _ \<Rightarrow> False" by simp
  qed
qed

text \<open>The steps of one grain running alone are \<^verbatim>\<open>last_arriver\<close>.\<close>

lemma grain_steps_loop:
  "last_arriver_loop tree (int a) = Inr (r, tree') \<Longrightarrow>
   \<exists>n. ((\<lambda>s. grain_step G (fst s) i (snd s)) ^^ n) (tree, Loop a) = (tree', Done r)"
proof (induction a arbitrary: tree rule: less_induct)
  case (less a)
  let ?f = "\<lambda>s. grain_step G (fst s) i (snd s)"
  show ?case
  proof (cases "0 < a")
    case False
    then have "r = 1" "tree' = tree" using less.prems by simp_all
    then have "(?f ^^ 1) (tree, Loop a) = (tree', Done r)"
      using False by (simp add: grain_step_def)
    then show ?thesis by blast
  next
    case True
    define p where "p = (a - 1) div 2"
    have ip: "(int a - 1) div 2 = int p" using True unfolding p_def by (simp add: zdiv_int of_nat_diff)
    have p_lt: "p < a" using True unfolding p_def by auto
    have inb: "p < length tree"
    proof (rule ccontr)
      assume "\<not> p < length tree"
      then have "last_arriver_loop tree (int a) = Inl OutOfBounds"
        using True ip by (subst last_arriver_loop.simps) (simp add: Let_def)
      then show False using less.prems by simp
    qed
    show ?thesis
    proof (cases "tree ! p = 0")
      case z: True
      have "last_arriver_loop tree (int a) = Inr (0, tree[p := tree ! p + 1])"
        using True ip inb z by (subst last_arriver_loop.simps) (simp add: Let_def)
      then have "r = 0" "tree' = tree[p := tree ! p + 1]" using less.prems by simp_all
      then have "(?f ^^ 1) (tree, Loop a) = (tree', Done r)"
        using True inb z by (simp add: grain_step_def Let_def p_def)
      then show ?thesis by blast
    next
      case nz: False
      have "last_arriver_loop tree (int a) = last_arriver_loop (tree[p := tree ! p + 1]) (int p)"
        using True ip inb nz by (subst last_arriver_loop.simps) (simp add: Let_def)
      then have "last_arriver_loop (tree[p := tree ! p + 1]) (int p) = Inr (r, tree')"
        using less.prems by simp
      from less.IH [OF p_lt this] obtain n where
        n: "(?f ^^ n) (tree[p := tree ! p + 1], Loop p) = (tree', Done r)" by blast
      have "?f (tree, Loop a) = (tree[p := tree ! p + 1], Loop p)"
        using True inb nz by (simp add: grain_step_def Let_def p_def)
      moreover have "(?f ^^ Suc n) (tree, Loop a) = (?f ^^ n) (?f (tree, Loop a))"
        by (simp only: funpow_Suc_right o_apply)
      ultimately have "(?f ^^ Suc n) (tree, Loop a) = (tree', Done r)"
        using n by (simp only:)
      then show ?thesis by blast
    qed
  qed
qed

lemma grain_steps_last_arriver:
  assumes "1 \<le> G" and "last_arriver (int G) tree (int i) = Inr (r, tree')"
  shows "\<exists>n. ((\<lambda>s. grain_step G (fst s) i (snd s)) ^^ n) (tree, Entry) = (tree', Done r)"
proof -
  let ?f = "\<lambda>s. grain_step G (fst s) i (snd s)"
  have e: "int i + int G - 1 = int (i + G - 1)" using assms(1) by linarith
  have "last_arriver_loop tree (int i + int G - 1) = Inr (r, tree')"
    using assms(2) unfolding last_arriver_def .
  then have "last_arriver_loop tree (int (i + G - 1)) = Inr (r, tree')"
    by (simp only: e)
  from grain_steps_loop [OF this, of G i] obtain n where
    n: "(?f ^^ n) (tree, Loop (i + G - 1)) = (tree', Done r)" by blast
  have "?f (tree, Entry) = (tree, Loop (i + G - 1))" by (simp add: grain_step_def)
  moreover have "(?f ^^ Suc n) (tree, Entry) = (?f ^^ n) (?f (tree, Entry))"
    by (simp only: funpow_Suc_right o_apply)
  ultimately have "(?f ^^ Suc n) (tree, Entry) = (tree', Done r)" using n by (simp only:)
  then show ?thesis by blast
qed

text \<open>
  Claim C6. Start from an arriver tree whose counters are all zero and let each of the
  \<open>G \<ge> 1\<close> grains \<open>i < G\<close> perform the ascent from leaf \<open>i + G - 1\<close> once, their atomic
  operations interleaved in any order (the schedule). When every grain has returned, exactly
  one of them has returned 1 (the LAST verdict) and the other \<open>G - 1\<close> have returned 0
  (NOT_LAST). Every grain has returned as soon as the schedule has given each of them
  \<open>2 * G\<close> steps, so the statement is about runs that exist.
\<close>

theorem exactly_one_last:
  assumes "1 \<le> G" and "fanout_run sched (fanout_init G) = (tree, pcs)"
  shows "((\<forall>i<G. 2 * G \<le> count_list sched i) \<longrightarrow> all_returned pcs) \<and>
         (all_returned pcs \<longrightarrow>
            length pcs = G \<and> count_list pcs (Done 1) = 1 \<and> count_list pcs (Done 0) = G - 1)"
proof -
  have inv: "fanout_inv (tree, pcs)"
    using fanout_run_inv [OF fanout_init_inv [OF assms(1)], of sched] assms(2) by simp
  have len: "length pcs = G"
    using fanout_length [of sched "fanout_init G"] assms(2) by (simp add: fanout_init_def)
  show ?thesis using fanout_final(1,2) [OF inv] fanout_returns [OF assms] len by simp
qed

theorem exactly_one_last_witness:
  "fanout_run [0, 0, 1, 2, 1, 0, 2, 2, 1, 0, 1, 2, 2, 1, 0, 0, 1, 2] (fanout_init 3) =
     ([2, 2], [Done 0, Done 0, Done 1]) \<and>
   count_list [0, 0, 1, 2, 1, 0, 2, 2, 1, 0, 1, 2, 2, 1, 0, 0, 1, 2] (0 :: nat) = 6 \<and>
   count_list [0, 0, 1, 2, 1, 0, 2, 2, 1, 0, 1, 2, 2, 1, 0, 0, 1, 2] (1 :: nat) = 6 \<and>
   count_list [0, 0, 1, 2, 1, 0, 2, 2, 1, 0, 1, 2, 2, 1, 0, 0, 1, 2] (2 :: nat) = 6 \<and>
   all_returned [Done 0, Done 0, Done 1] \<and>
   count_list [Done 0, Done 0, Done 1] (Done 1) = 1 \<and>
   count_list [Done 0, Done 0, Done 1] (Done 0) = 2"
proof -
  have r: "fanout_run [0, 0, 1, 2, 1, 0, 2, 2, 1, 0, 1, 2, 2, 1, 0, 0, 1, 2] (fanout_init 3) =
             ([2, 2], [Done 0, Done 0, Done 1])"
    by code_simp
  have f: "\<forall>i<3. 2 * 3 \<le> count_list [0, 0, 1, 2, 1, 0, 2, 2, 1, 0, 1, 2, 2, 1, 0, 0, 1, 2] (i :: nat)"
    by (simp add: less_Suc_eq numeral_3_eq_3)
  from exactly_one_last [OF _ r] f r show ?thesis by simp
qed

end
